theory Spec2Isabelle
  imports Main "HOL-Library.Multiset" "HOL-Library.Finite_Map"
begin

section \<open>JSON values as the program reads them\<close>

text \<open>
  The exporter reads JSON through the fastjson library. A decoded value is one of the
  JSON kinds. Names and strings are the decoded byte strings.

  The counters object itself is only walked with \<open>Object.Visit\<close>, which unescapes the
  names and calls back on every member in document order: it is a list of name/value
  pairs (see \<open>Visit\<close> below). Every other object is only read with \<open>Object.Get\<close>.
  Such an object is a finite map from its decoded member names to their values, so its
  member names are unique. With two members whose names decode alike, the member that
  \<open>Object.Get\<close> returns depends on the escaped spelling of the names (it compares the
  names as written before it compares the decoded names); these objects are outside
  the model.

  The program reads a number only through \<open>GetInt\<close>, so a number literal is either a
  plain decimal integer literal (\<open>IntLit\<close>) or any other number literal (one with a
  fraction or an exponent, \<open>OtherLit\<close>).
\<close>

datatype jnumber = IntLit int | OtherLit

datatype json =
    JNull
  | JTrue
  | JFalse
  | JNumber jnumber
  | JString string
  | JArray "json list"
  | JObject "(string, json) fmap"

text \<open>
  \<open>Value.Get(key)\<close> with one key: the member of that name in an object; nothing
  for a scalar. For an array fastjson parses the key as a decimal index; the program
  only asks for the field names \<open>description\<close>, \<open>flag\<close>, \<open>value\<close>, \<open>status\<close> and
  \<open>name\<close>, none of which is a number, so an array yields nothing as well.
\<close>

definition Get :: "json \<Rightarrow> string \<Rightarrow> json option" where
  "Get v key = (case v of JObject members \<Rightarrow> fmlookup members key | _ \<Rightarrow> None)"

text \<open>
  \<open>GetStringBytes\<close>: the string under the key, or nil (which \<open>string(...)\<close> turns into
  the empty string) when the key is missing or its value is not a string.
\<close>

definition GetStringBytes :: "json \<Rightarrow> string \<Rightarrow> string" where
  "GetStringBytes v key = (case Get v key of Some (JString s) \<Rightarrow> s | _ \<Rightarrow> [])"

text \<open>
  \<open>GetInt\<close>: the integer under the key; 0 when the key is missing, when the value is
  not a number, when the literal is not a plain integer, or when it does not fit the
  64-bit \<open>int\<close>.
\<close>

definition GetInt :: "json \<Rightarrow> string \<Rightarrow> int" where
  "GetInt v key =
     (case Get v key of
        Some (JNumber (IntLit i)) \<Rightarrow>
          (if - (2 ^ 63) \<le> i \<and> i < 2 ^ 63 then i else 0)
      | _ \<Rightarrow> 0)"

section \<open>Errors and panics\<close>

text \<open>
  \<open>DecodeError\<close> is an error value returned by \<open>fastjson.Parse\<close> or \<open>Value.Array\<close>
  (with its message); \<open>NoActiveACL\<close> is \<open>errors.New("No active ACL found")\<close>. The two
  remaining constructors are Go run-time panics: indexing a slice at \<open>i\<close> with length
  \<open>n \<le> i\<close>, and slicing \<open>a[lo:]\<close> with \<open>lo\<close> greater than the length.
\<close>

datatype error =
    DecodeError string
  | NoActiveACL
  | IndexOutOfRange nat nat
  | SliceBoundsOutOfRange nat nat

definition index :: "'a list \<Rightarrow> nat \<Rightarrow> error + 'a" where
  "index xs i = (if i < length xs then Inr (xs ! i) else Inl (IndexOutOfRange i (length xs)))"

section \<open>Strings\<close>

text \<open>\<open>strings.Split(s, ".")\<close>: the pieces between the separators, one more than separators.\<close>

fun Split :: "char \<Rightarrow> string \<Rightarrow> string list" where
  "Split sep [] = [Nil]"
| "Split sep (c # cs) =
     (let r = Split sep cs in if c = sep then [] # r else (c # hd r) # tl r)"

text \<open>
  \<open>strings.ToLower\<close>: a string of ASCII bytes has its letters \<open>A\<close>..\<open>Z\<close> moved to
  \<open>a\<close>..\<open>z\<close>. A string with a byte outside ASCII goes through the Unicode case mapping,
  which is the parameter \<open>ulower\<close>.
\<close>

definition isASCII :: "string \<Rightarrow> bool" where
  "isASCII s = (\<forall>c \<in> set s. of_char c < (128::nat))"

definition lower_byte :: "char \<Rightarrow> char" where
  "lower_byte c =
     (if (65::nat) \<le> of_char c \<and> of_char c \<le> (90::nat) then char_of (of_char c + (32::nat)) else c)"

definition ToLower :: "(string \<Rightarrow> string) \<Rightarrow> string \<Rightarrow> string" where
  "ToLower ulower s = (if isASCII s then map lower_byte s else ulower s)"

text \<open>The verb \<open>%d\<close> of \<open>fmt.Sprintf\<close>: decimal digits, with a minus sign when negative.\<close>

fun digits :: "nat \<Rightarrow> string" where
  "digits n = (if n < 10 then [char_of (48 + n)] else digits (n div 10) @ [char_of (48 + n mod 10)])"

definition itoa :: "int \<Rightarrow> string" where
  "itoa i = (if i < 0 then CHR ''-'' # digits (nat (- i)) else digits (nat i))"

definition nl :: string where
  "nl = [CHR 0x0A]"

definition dq :: string where
  "dq = [CHR 0x22]"

section \<open>Metrics and labels\<close>

text \<open>
  The field \<open>Labels\<close> is a Go map. It is kept as the list of its entries; the
  \<open>range\<close> loop of \<open>formatLabel\<close> may visit them in any order, so a statement about
  \<open>formatLabel\<close> is made for every list of entries.
\<close>

record Metric =
  Category :: string
  Name :: string
  Labels :: "(string \<times> string) list"
  Value :: json

definition newMetric :: "string \<Rightarrow> string \<Rightarrow> (string \<times> string) list \<Rightarrow> json \<Rightarrow> Metric" where
  "newMetric cate name labels val =
     \<lparr>Category = cate, Name = name, Labels = labels, Value = val\<rparr>"

definition newLabel :: "string \<Rightarrow> string \<Rightarrow> (string \<times> string) list" where
  "newLabel name val = [(name, val)]"

definition emptyLabel :: "(string \<times> string) list" where
  "emptyLabel = []"

text \<open>One turn of the loop of \<open>formatLabel\<close> on the buffer \<open>w\<close>.\<close>

definition formatLabel_step :: "string \<Rightarrow> string \<times> string \<Rightarrow> string" where
  "formatLabel_step w nv =
     (if length w = 0 then w @ ''{'' else w @ '','') @ fst nv @ ''='' @ dq @ snd nv @ dq"

definition formatLabel :: "(string \<times> string) list \<Rightarrow> string" where
  "formatLabel labels =
     (let w = foldl formatLabel_step [] labels in if length w > 0 then w @ ''}'' else w)"

section \<open>genMetrics\<close>

text \<open>
  The callback given to \<open>Visit\<close> changes two captured variables, \<open>activeVCL\<close> and
  \<open>metrics\<close>; it also prints every \<open>VBE\<close> key (\<open>fmt.Println\<close>) and logs every key of an
  unknown prefix (\<open>log.Println\<close>). All four are fields of the state it passes on.
\<close>

record visit_state =
  activeVCL :: string
  metrics :: "Metric list"
  printed :: "string list"
  logged :: "(string \<times> json) list"

definition add_metric :: "visit_state \<Rightarrow> Metric \<Rightarrow> visit_state" where
  "add_metric st m = st\<lparr>metrics := metrics st @ [m]\<rparr>"

text \<open>
  The body of the callback. \<open>splits[0]\<close> and \<open>splits[1]\<close> are read after the check
  \<open>len(splits) < 2\<close>; \<open>splits[2]\<close> and \<open>splits[3]\<close> are read with no further check and
  panic when the key has too few segments.
\<close>

definition visit :: "(string \<Rightarrow> string) \<Rightarrow> visit_state \<Rightarrow> string \<times> json \<Rightarrow> error + visit_state" where
  "visit ulower st kv =
     (let key = fst kv; val = snd kv in
      if key = ''version'' then Inr st
      else
        let splits = Split (CHR ''.'') key in
        if length splits < 2 then Inr st
        else
          let prefix = splits ! 0 in
          if prefix = ''VBE'' then
            (let st1 = st\<lparr>printed := printed st @ [key]\<rparr>;
                 vclVersion = splits ! 1;
                 st2 = (if activeVCL st1 = [] then st1\<lparr>activeVCL := vclVersion\<rparr> else st1)
             in if vclVersion \<noteq> activeVCL st2 then Inr st2
                else
                  (case index splits 2 of
                     Inl e \<Rightarrow> Inl e
                   | Inr backend \<Rightarrow>
                       (case index splits 3 of
                          Inl e \<Rightarrow> Inl e
                        | Inr name \<Rightarrow>
                            Inr (add_metric st2
                                   (newMetric ''backend'' name (newLabel ''name'' backend) val)))))
          else if prefix = ''MEMPOOL'' then
            (let pool = splits ! 1 in
             case index splits 2 of
               Inl e \<Rightarrow> Inl e
             | Inr name \<Rightarrow>
                 Inr (add_metric st (newMetric ''mempool'' name (newLabel ''name'' pool) val)))
          else if prefix = ''SMA'' then
            (let typ = ToLower ulower (splits ! 1) in
             case index splits 2 of
               Inl e \<Rightarrow> Inl e
             | Inr name \<Rightarrow>
                 Inr (add_metric st (newMetric ''sma'' name (newLabel ''type'' typ) val)))
          else if prefix = ''LCK'' then
            (let target = splits ! 1 in
             case index splits 2 of
               Inl e \<Rightarrow> Inl e
             | Inr name \<Rightarrow>
                 Inr (add_metric st (newMetric ''lock'' name (newLabel ''target'' target) val)))
          else if prefix = ''SMF'' then
            (let typ = splits ! 1 in
             case index splits 2 of
               Inl e \<Rightarrow> Inl e
             | Inr name \<Rightarrow>
                 Inr (add_metric st (newMetric ''smf'' name (newLabel ''type'' typ) val)))
          else if prefix = ''MAIN'' then
            (let name = splits ! 1 in
             Inr (add_metric st (newMetric ''main'' name emptyLabel val)))
          else if prefix = ''MGT'' then
            (let name = splits ! 1 in
             Inr (add_metric st (newMetric ''mgt'' name emptyLabel val)))
          else Inr (st\<lparr>logged := logged st @ [(key, val)]\<rparr>))"

text \<open>\<open>Object.Visit\<close>: the callback on every member in order; a panic ends the walk.\<close>

fun Visit :: "('s \<Rightarrow> string \<times> json \<Rightarrow> error + 's) \<Rightarrow> (string \<times> json) list \<Rightarrow> 's \<Rightarrow> error + 's" where
  "Visit f [] st = Inr st"
| "Visit f (kv # kvs) st = (case f st kv of Inl e \<Rightarrow> Inl e | Inr st' \<Rightarrow> Visit f kvs st')"

definition init_state :: "string \<Rightarrow> visit_state" where
  "init_state active = \<lparr>activeVCL = active, metrics = [], printed = [], logged = []\<rparr>"

text \<open>The first half of \<open>genMetrics\<close>: the walk over the counters object.\<close>

definition collect :: "(string \<Rightarrow> string) \<Rightarrow> (string \<times> json) list \<Rightarrow> string \<Rightarrow> error + visit_state" where
  "collect ulower obj active = Visit (visit ulower) obj (init_state active)"

text \<open>The three \<open>WriteString\<close> calls of one turn of the rendering loop.\<close>

definition full_name :: "Metric \<Rightarrow> string" where
  "full_name m = ''varnish_'' @ Category m @ ''_'' @ Name m"

definition type_of_flag :: "string \<Rightarrow> string" where
  "type_of_flag flg = (if flg = ''g'' then ''gauge'' else ''counter'')"

definition render_metric :: "Metric \<Rightarrow> string" where
  "render_metric m =
     (let desc = GetStringBytes (Value m) ''description'';
          flg = GetStringBytes (Value m) ''flag'';
          v = GetInt (Value m) ''value'';
          typ = type_of_flag flg;
          name = full_name m
      in (''# HELP '' @ name @ '' '' @ desc @ nl)
         @ (''# TYPE '' @ name @ '' '' @ typ @ nl)
         @ (name @ formatLabel (Labels m) @ '' '' @ itoa v @ nl))"

definition active_vcl_block :: "string \<Rightarrow> string" where
  "active_vcl_block active =
     (''# HELP varnish_active_vcl vcl version'' @ nl)
     @ (''# TYPE varnish_active_vcl gauge'' @ nl)
     @ (''varnish_active_vcl{version='' @ dq @ active @ dq @ ''} 1'' @ nl)"

definition render :: "Metric list \<Rightarrow> string \<Rightarrow> string" where
  "render ms active = foldl (\<lambda>w m. w @ render_metric m) [] ms @ active_vcl_block active"

definition genMetrics :: "(string \<Rightarrow> string) \<Rightarrow> (string \<times> json) list \<Rightarrow> string \<Rightarrow> error + string" where
  "genMetrics ulower obj active =
     (case collect ulower obj active of
        Inl e \<Rightarrow> Inl e
      | Inr st \<Rightarrow> Inr (render (metrics st) (activeVCL st)))"

section \<open>parseVCLList\<close>

text \<open>
  \<open>fastjson.Parse\<close> is the parameter \<open>parse\<close>: it returns the decoded value or the
  message of its error. \<open>Value.Array\<close> fails on anything that is not an array.
\<close>

fun type_name :: "json \<Rightarrow> string" where
  "type_name JNull = ''null''"
| "type_name JTrue = ''true''"
| "type_name JFalse = ''false''"
| "type_name (JNumber n) = ''number''"
| "type_name (JString s) = ''string''"
| "type_name (JArray a) = ''array''"
| "type_name (JObject kvs) = ''object''"

definition Array :: "json \<Rightarrow> error + json list" where
  "Array v =
     (case v of
        JArray a \<Rightarrow> Inr a
      | _ \<Rightarrow> Inl (DecodeError (''value doesn't contain array; it contains '' @ type_name v)))"

fun first_active :: "json list \<Rightarrow> error + string" where
  "first_active [] = Inl NoActiveACL"
| "first_active (v # vs) =
     (if GetStringBytes v ''status'' = ''active'' then Inr (GetStringBytes v ''name'')
      else first_active vs)"

definition parseVCLList :: "(string \<Rightarrow> string + json) \<Rightarrow> string \<Rightarrow> error + string" where
  "parseVCLList parse input =
     (case parse input of
        Inl msg \<Rightarrow> Inl (DecodeError msg)
      | Inr val \<Rightarrow>
          (case Array val of
             Inl e \<Rightarrow> Inl e
           | Inr arr \<Rightarrow>
               if length arr < 3 then Inl (SliceBoundsOutOfRange 3 (length arr))
               else first_active (drop 3 arr)))"

section \<open>Notions used to state the properties\<close>

text \<open>The dot-path of a key, and the text of one label entry, \<open>key="value"\<close>.\<close>

definition segments :: "string \<Rightarrow> string list" where
  "segments key = Split (CHR ''.'') key"

definition label_pair :: "string \<times> string \<Rightarrow> string" where
  "label_pair nv = fst nv @ ''='' @ dq @ snd nv @ dq"

fun join :: "string \<Rightarrow> string list \<Rightarrow> string" where
  "join sep [] = []"
| "join sep [x] = x"
| "join sep (x # y # ys) = x @ sep @ join sep (y # ys)"

text \<open>
  A key is recognized when it is not the reserved key, has at least two segments and
  its first segment is in the closed vocabulary. It is a \<open>VBE\<close> key when it has at least
  two segments and the first is \<open>VBE\<close>; its revision id is then its second segment.
\<close>

definition vocabulary :: "string list" where
  "vocabulary = [''VBE'', ''MEMPOOL'', ''SMA'', ''LCK'', ''SMF'', ''MAIN'', ''MGT'']"

definition recognized :: "string \<Rightarrow> bool" where
  "recognized key =
     (key \<noteq> ''version'' \<and> 2 \<le> length (segments key) \<and> segments key ! 0 \<in> set vocabulary)"

definition is_VBE :: "string \<Rightarrow> bool" where
  "is_VBE key = (2 \<le> length (segments key) \<and> segments key ! 0 = ''VBE'')"

definition revision_id :: "string \<Rightarrow> string" where
  "revision_id key = segments key ! 1"

text \<open>
  The number of segments the classification table reads for a first segment, and the
  keys that have that many.
\<close>

definition segments_read :: "string \<Rightarrow> nat" where
  "segments_read p =
     (if p = ''VBE'' then 4
      else if p \<in> set [''MEMPOOL'', ''SMA'', ''LCK'', ''SMF''] then 3
      else 2)"

definition long_enough :: "string \<Rightarrow> bool" where
  "long_enough key =
     (recognized key \<longrightarrow> segments_read (segments key ! 0) \<le> length (segments key))"

text \<open>
  The classification table of the specification, row by row, for a recognized key:
  the Metric the table assigns to the key.
\<close>

definition table_metric :: "(string \<Rightarrow> string) \<Rightarrow> string \<Rightarrow> json \<Rightarrow> Metric" where
  "table_metric ulower key val =
     (let s = segments key; p = s ! 0 in
      if p = ''VBE'' then
        \<lparr>Category = ''backend'', Name = s ! 3, Labels = [(''name'', s ! 2)], Value = val\<rparr>
      else if p = ''MEMPOOL'' then
        \<lparr>Category = ''mempool'', Name = s ! 2, Labels = [(''name'', s ! 1)], Value = val\<rparr>
      else if p = ''SMA'' then
        \<lparr>Category = ''sma'', Name = s ! 2, Labels = [(''type'', ToLower ulower (s ! 1))],
         Value = val\<rparr>
      else if p = ''LCK'' then
        \<lparr>Category = ''lock'', Name = s ! 2, Labels = [(''target'', s ! 1)], Value = val\<rparr>
      else if p = ''SMF'' then
        \<lparr>Category = ''smf'', Name = s ! 2, Labels = [(''type'', s ! 1)], Value = val\<rparr>
      else if p = ''MAIN'' then
        \<lparr>Category = ''main'', Name = s ! 1, Labels = [], Value = val\<rparr>
      else
        \<lparr>Category = ''mgt'', Name = s ! 1, Labels = [], Value = val\<rparr>)"

text \<open>
  The Metrics the specification retains, in visiting order, when the pass starts with
  the active revision \<open>act\<close>: none for a key that is not recognized; for a \<open>VBE\<close> key,
  an empty active revision is first replaced by the key's revision id, and the key's
  Metric is retained when its revision id is the active one; one Metric for every
  other recognized key.
\<close>

fun retained :: "(string \<Rightarrow> string) \<Rightarrow> string \<Rightarrow> (string \<times> json) list \<Rightarrow> Metric list" where
  "retained ulower act [] = []"
| "retained ulower act (kv # rest) =
     (if \<not> recognized (fst kv) then retained ulower act rest
      else if is_VBE (fst kv) then
        (let act' = (if act = [] then revision_id (fst kv) else act) in
         (if revision_id (fst kv) = act' then [table_metric ulower (fst kv) (snd kv)] else [])
         @ retained ulower act' rest)
      else table_metric ulower (fst kv) (snd kv) # retained ulower act rest)"

text \<open>The member \<open>flag\<close> of a JSON node is the string \<open>g\<close>.\<close>

definition flag_is_g :: "json \<Rightarrow> bool" where
  "flag_is_g v =
     (case v of
        JObject members \<Rightarrow> fmlookup members ''flag'' = Some (JString ''g'')
      | _ \<Rightarrow> False)"

text \<open>
  What \<open>genMetrics\<close> reads from the state once the walk is over: the active revision and
  the collected metrics. A \<open>VBE\<close> key is of another revision than \<open>act\<close> when its
  revision id differs from \<open>act\<close>; \<open>without_other_revisions\<close> removes these keys from a
  counters object.
\<close>

definition outcome :: "visit_state \<Rightarrow> string \<times> Metric list" where
  "outcome st = (activeVCL st, metrics st)"

definition other_revision :: "string \<Rightarrow> string \<Rightarrow> bool" where
  "other_revision act key = (is_VBE key \<and> revision_id key \<noteq> act)"

fun without_other_revisions :: "string \<Rightarrow> (string \<times> json) list \<Rightarrow> (string \<times> json) list" where
  "without_other_revisions act [] = []"
| "without_other_revisions act (kv # rest) =
     (if other_revision act (fst kv) then without_other_revisions act rest
      else kv # without_other_revisions act rest)"

text \<open>
  A string is one line when it holds no newline. A Metric is one line when its name,
  its description and its label entries are. \<open>terminated\<close> writes lines one after the
  other, each followed by a newline; \<open>metric_lines\<close> and \<open>block_lines\<close> are the three
  lines of a Metric's block and of the \<open>varnish_active_vcl\<close> block.
\<close>

definition one_line :: "string \<Rightarrow> bool" where
  "one_line s = (CHR 0x0A \<notin> set s)"

definition one_line_metric :: "Metric \<Rightarrow> bool" where
  "one_line_metric m =
     (one_line (Name m) \<and> one_line (GetStringBytes (Value m) ''description'')
      \<and> list_all (\<lambda>nv. one_line (fst nv) \<and> one_line (snd nv)) (Labels m))"

definition terminated :: "string list \<Rightarrow> string" where
  "terminated ls = concat (map (\<lambda>l. l @ nl) ls)"

definition metric_lines :: "Metric \<Rightarrow> string list" where
  "metric_lines m =
     [''# HELP '' @ full_name m @ '' '' @ GetStringBytes (Value m) ''description'',
      ''# TYPE '' @ full_name m @ '' '' @ type_of_flag (GetStringBytes (Value m) ''flag''),
      full_name m @ formatLabel (Labels m) @ '' '' @ itoa (GetInt (Value m) ''value'')]"

definition block_lines :: "string \<Rightarrow> string list" where
  "block_lines active =
     [''# HELP varnish_active_vcl vcl version'',
      ''# TYPE varnish_active_vcl gauge'',
      ''varnish_active_vcl{version='' @ dq @ active @ dq @ ''} 1'']"

text \<open>A decoder that reads the text \<open>[]\<close> as the empty array and rejects every other text.\<close>

definition parse_brackets :: "string \<Rightarrow> string + json" where
  "parse_brackets input = (if input = ''[]'' then Inr (JArray []) else Inl ''cannot parse'')"

section \<open>formatLabel\<close>

lemma foldl_formatLabel_step_started:
  "w \<noteq> [] \<Longrightarrow> foldl formatLabel_step w xs = w @ concat (map (\<lambda>nv. '','' @ label_pair nv) xs)"
proof (induction xs arbitrary: w)
  case Nil
  then show ?case by simp
next
  case (Cons x xs)
  have "formatLabel_step w x = w @ '','' @ label_pair x"
    using Cons.prems by (simp add: formatLabel_step_def label_pair_def)
  moreover have "w @ '','' @ label_pair x \<noteq> []" using Cons.prems by simp
  ultimately show ?case using Cons.IH [of "w @ '','' @ label_pair x"] by simp
qed

lemma join_Cons: "join '','' (x # xs) = x @ concat (map (\<lambda>y. '','' @ y) xs)"
  by (induction xs arbitrary: x) auto

lemma foldl_formatLabel_step_Cons:
  "foldl formatLabel_step [] (x # xs) = ''{'' @ join '','' (map label_pair (x # xs))"
proof -
  have "formatLabel_step [] x = ''{'' @ label_pair x"
    by (simp add: formatLabel_step_def label_pair_def)
  then have "foldl formatLabel_step [] (x # xs)
      = (''{'' @ label_pair x) @ concat (map (\<lambda>nv. '','' @ label_pair nv) xs)"
    using foldl_formatLabel_step_started [of "''{'' @ label_pair x" xs] by simp
  also have "\<dots> = ''{'' @ join '','' (map label_pair (x # xs))"
    by (simp add: join_Cons comp_def del: join.simps)
  finally show ?thesis .
qed

lemma formatLabel_Nil: "formatLabel [] = []"
  by (simp add: formatLabel_def)

lemma formatLabel_nonempty:
  "labels \<noteq> [] \<Longrightarrow> formatLabel labels = ''{'' @ join '','' (map label_pair labels) @ ''}''"
  by (cases labels)
    (simp_all add: formatLabel_def foldl_formatLabel_step_Cons Let_def del: foldl_Cons join.simps)

text \<open>
  Claim C7. \<open>formatLabel\<close> of the empty label mapping is the empty string. For a mapping
  with at least one entry, whatever the order in which its entries are visited, the
  result is \<open>{\<close>, then the texts \<open>key="value"\<close> of the entries, one per entry, separated
  by commas, then \<open>}\<close>; so it starts with \<open>{\<close> and ends with \<open>}\<close>.
\<close>

theorem formatLabel_shape:
  "formatLabel [] = [] \<and>
   (labels \<noteq> [] \<longrightarrow>
      formatLabel labels = ''{'' @ join '','' (map label_pair labels) @ ''}'' \<and>
      hd (formatLabel labels) = CHR ''{'' \<and>
      last (formatLabel labels) = CHR ''}'')"
  by (simp add: formatLabel_nonempty formatLabel_Nil)

theorem formatLabel_shape_witness:
  "[(''name'', ''be1''), (''type'', ''x'')] \<noteq> [] \<and>
   formatLabel [(''name'', ''be1''), (''type'', ''x'')]
     = ''{'' @ join '','' [''name='' @ dq @ ''be1'' @ dq, ''type='' @ dq @ ''x'' @ dq] @ ''}'' \<and>
   formatLabel [(''name'', ''be1''), (''type'', ''x'')]
     = ''{name='' @ dq @ ''be1'' @ dq @ '',type='' @ dq @ ''x'' @ dq @ ''}''"
  using formatLabel_shape [of "[(''name'', ''be1''), (''type'', ''x'')]"]
  by (simp add: label_pair_def)

section \<open>Concrete runs\<close>

text \<open>
  Claim C8. With the counters object
  \<open>{"version":"1","MAIN.uptime":{"description":"d","flag":"c","value":42}}\<close> and the
  empty active revision, \<open>genMetrics\<close> returns the three lines of \<open>varnish_main_uptime\<close>
  followed by the \<open>varnish_active_vcl\<close> block with an empty version label.
\<close>

theorem genMetrics_end_to_end:
  "genMetrics ulower
     [(''version'', JString ''1''),
      (''MAIN.uptime'',
         JObject (fmap_of_list
           [(''description'', JString ''d''), (''flag'', JString ''c''),
            (''value'', JNumber (IntLit 42))]))]
     []
   = Inr (''# HELP varnish_main_uptime d'' @ nl
          @ ''# TYPE varnish_main_uptime counter'' @ nl
          @ ''varnish_main_uptime 42'' @ nl
          @ ''# HELP varnish_active_vcl vcl version'' @ nl
          @ ''# TYPE varnish_active_vcl gauge'' @ nl
          @ ''varnish_active_vcl{version='' @ dq @ dq @ ''} 1'' @ nl)"
  by code_simp

text \<open>
  Claim C3. \<open>genMetrics\<close> is not total: on the counters object \<open>{"MEMPOOL.x": null}\<close>
  the key has two segments and a recognized first segment, the callback reads
  \<open>splits[2]\<close>, and the call panics with an index out of range.
\<close>

theorem genMetrics_panics_on_short_key:
  "genMetrics ulower [(''MEMPOOL.x'', JNull)] [] = Inl (IndexOutOfRange 2 2)"
  by code_simp

text \<open>
  Claim C5. \<open>parseVCLList\<close> does not return an error on every decodable list without
  an active entry: when the text decodes to the empty array, \<open>arr[3:]\<close> panics with
  slice bounds out of range.
\<close>

theorem parseVCLList_panics_on_short_list:
  "parseVCLList parse_brackets ''[]'' = Inl (SliceBoundsOutOfRange 3 0)"
  by (simp add: parseVCLList_def Array_def parse_brackets_def)

section \<open>The callback, case by case\<close>

lemma Split_not_Nil: "Split sep s \<noteq> []"
  by (induction s) (simp_all add: Let_def)

lemma segments_version: "segments ''version'' = [''version'']"
  by (simp add: segments_def Let_def)

lemma is_VBE_recognized: "is_VBE k \<Longrightarrow> recognized k"
  by (auto simp: is_VBE_def recognized_def vocabulary_def segments_version)

lemma visit_not_recognized:
  "\<not> recognized k \<Longrightarrow>
   visit ul st (k, v) =
     Inr (if k = ''version'' \<or> length (segments k) < 2 then st
          else st\<lparr>logged := logged st @ [(k, v)]\<rparr>)"
  by (auto simp: visit_def recognized_def vocabulary_def segments_def Let_def)

lemma visit_not_VBE:
  "recognized k \<Longrightarrow> \<not> is_VBE k \<Longrightarrow> long_enough k \<Longrightarrow>
   visit ul st (k, v) = Inr (add_metric st (table_metric ul k v))"
  by (auto simp: visit_def recognized_def is_VBE_def long_enough_def segments_read_def
      vocabulary_def segments_def Let_def table_metric_def newMetric_def newLabel_def
      emptyLabel_def index_def)

lemma visit_VBE_other_revision:
  "is_VBE k \<Longrightarrow> activeVCL st \<noteq> [] \<Longrightarrow> revision_id k \<noteq> activeVCL st \<Longrightarrow>
   visit ul st (k, v) = Inr (st\<lparr>printed := printed st @ [k]\<rparr>)"
  by (auto simp: visit_def is_VBE_def revision_id_def segments_def Let_def)

lemma visit_VBE_active:
  "is_VBE k \<Longrightarrow> activeVCL st = [] \<or> revision_id k = activeVCL st \<Longrightarrow>
   4 \<le> length (segments k) \<Longrightarrow>
   visit ul st (k, v) =
     Inr (add_metric (st\<lparr>printed := printed st @ [k], activeVCL := revision_id k\<rparr>)
            (table_metric ul k v))"
  by (auto simp: visit_def is_VBE_def revision_id_def segments_def Let_def table_metric_def
      newMetric_def newLabel_def index_def add_metric_def)

lemma visit_VBE_short:
  "is_VBE k \<Longrightarrow> activeVCL st = [] \<or> revision_id k = activeVCL st \<Longrightarrow>
   length (segments k) < 4 \<Longrightarrow>
   visit ul st (k, v) =
     Inl (IndexOutOfRange (if length (segments k) = 2 then 2 else 3) (length (segments k)))"
  by (auto simp: visit_def is_VBE_def revision_id_def segments_def Let_def index_def)

lemma visit_not_VBE_short:
  "recognized k \<Longrightarrow> \<not> is_VBE k \<Longrightarrow> \<not> long_enough k \<Longrightarrow>
   visit ul st (k, v) = Inl (IndexOutOfRange 2 2)"
  by (auto simp: visit_def recognized_def is_VBE_def long_enough_def segments_read_def
      vocabulary_def segments_def Let_def index_def)

lemma table_metric_labels:
  "recognized k \<Longrightarrow>
   Category (table_metric ul k v) \<in> set [''backend'', ''mempool'', ''sma'', ''lock'', ''smf'']
     \<and> length (Labels (table_metric ul k v)) = 1
   \<or> Category (table_metric ul k v) \<in> set [''main'', ''mgt'']
     \<and> Labels (table_metric ul k v) = []"
  by (auto simp: recognized_def vocabulary_def table_metric_def Let_def)

lemma visit_metrics:
  assumes "visit ul st kv = Inr st'"
  shows "metrics st' = metrics st \<or>
         recognized (fst kv) \<and> metrics st' = metrics st @ [table_metric ul (fst kv) (snd kv)]"
proof (cases "recognized (fst kv)")
  case False
  then show ?thesis
    using assms visit_not_recognized [of "fst kv" ul st "snd kv"] by (auto split: if_splits)
next
  case rec: True
  show ?thesis
  proof (cases "is_VBE (fst kv)")
    case False
    then show ?thesis
      using assms rec visit_not_VBE [of "fst kv" ul st "snd kv"]
        visit_not_VBE_short [of "fst kv" ul st "snd kv"]
      by (cases "long_enough (fst kv)") (auto simp: add_metric_def)
  next
    case vbe: True
    show ?thesis
    proof (cases "activeVCL st = [] \<or> revision_id (fst kv) = activeVCL st")
      case False
      then show ?thesis
        using assms vbe visit_VBE_other_revision [of "fst kv" st ul "snd kv"] by auto
    next
      case True
      then show ?thesis
        using assms vbe rec visit_VBE_active [of "fst kv" st ul "snd kv"]
          visit_VBE_short [of "fst kv" st ul "snd kv"]
        by (cases "4 \<le> length (segments (fst kv))") (auto simp: add_metric_def)
    qed
  qed
qed

lemma Visit_append:
  "Visit f (xs @ ys) st = (case Visit f xs st of Inl e \<Rightarrow> Inl e | Inr st' \<Rightarrow> Visit f ys st')"
  by (induction xs arbitrary: st) (auto split: sum.splits)

lemma Visit_metrics_invariant:
  assumes "Visit (visit ul) obj st = Inr st'"
    and "\<forall>m \<in> set (metrics st). P m"
    and "\<And>k v. recognized k \<Longrightarrow> P (table_metric ul k v)"
  shows "\<forall>m \<in> set (metrics st'). P m"
  using assms(1,2)
proof (induction obj arbitrary: st)
  case Nil
  then show ?case by simp
next
  case (Cons kv obj)
  from Cons.prems(1) obtain st1 where
    st1: "visit ul st kv = Inr st1" and rest: "Visit (visit ul) obj st1 = Inr st'"
    by (auto split: sum.splits)
  have "\<forall>m \<in> set (metrics st1). P m"
    using visit_metrics [OF st1] Cons.prems(2) assms(3) by auto
  then show ?case using Cons.IH [OF rest] by blast
qed

section \<open>Rendering\<close>

lemma foldl_append_concat: "foldl (\<lambda>w m. w @ f m) w0 ms = w0 @ concat (map f ms)"
  by (induction ms arbitrary: w0) simp_all

lemma render_concat: "render ms act = concat (map render_metric ms) @ active_vcl_block act"
  by (simp add: render_def foldl_append_concat)

lemma GetStringBytes_flag_g: "GetStringBytes v ''flag'' = ''g'' \<longleftrightarrow> flag_is_g v"
  by (auto simp: GetStringBytes_def Get_def flag_is_g_def split: json.splits option.splits)

lemma render_metric_lines:
  "render_metric m =
     (''# HELP '' @ full_name m @ '' '' @ GetStringBytes (Value m) ''description'' @ nl)
     @ (''# TYPE '' @ full_name m @ '' '' @ (if flag_is_g (Value m) then ''gauge'' else ''counter'') @ nl)
     @ (full_name m @ formatLabel (Labels m) @ '' '' @ itoa (GetInt (Value m) ''value'') @ nl)"
  by (simp add: render_metric_def Let_def type_of_flag_def GetStringBytes_flag_g)

lemma flag_is_g_member:
  assumes "distinct (map fst members)"
  shows "flag_is_g (JObject (fmap_of_list members)) = ((''flag'', JString ''g'') \<in> set members)"
  using assms by (simp add: flag_is_g_def fmlookup_of_list)

text \<open>
  Claim C6. The text of \<open>genMetrics\<close> is the blocks of the retained metrics, in order,
  followed by the \<open>varnish_active_vcl\<close> block. The block of a retained metric is its
  \<open># HELP\<close> line, its \<open># TYPE\<close> line and its sample line, and the type on the
  \<open># TYPE\<close> line is \<open>gauge\<close> exactly when the member \<open>flag\<close> of the metric's JSON node
  is the string \<open>g\<close>; it is \<open>counter\<close> for any other flag and when there is no flag.
  The nodes are the objects of the model, whose member names are unique: for a node
  written as a list of members with distinct names, the member \<open>flag\<close> is the string
  \<open>g\<close> exactly when the pair of \<open>flag\<close> and that string is in the list.
\<close>

theorem type_line_gauge_iff_flag_g:
  assumes "collect ul obj act = Inr st"
  shows "genMetrics ul obj act
           = Inr (concat (map render_metric (metrics st)) @ active_vcl_block (activeVCL st))
         \<and> (\<forall>m \<in> set (metrics st).
              render_metric m =
                (''# HELP '' @ full_name m @ '' '' @ GetStringBytes (Value m) ''description'' @ nl)
                @ (''# TYPE '' @ full_name m @ '' ''
                     @ (if flag_is_g (Value m) then ''gauge'' else ''counter'') @ nl)
                @ (full_name m @ formatLabel (Labels m) @ '' ''
                     @ itoa (GetInt (Value m) ''value'') @ nl))
         \<and> (\<forall>members. distinct (map fst members) \<longrightarrow>
              flag_is_g (JObject (fmap_of_list members))
                = ((''flag'', JString ''g'') \<in> set members))"
proof (intro conjI allI impI)
  show "genMetrics ul obj act
           = Inr (concat (map render_metric (metrics st)) @ active_vcl_block (activeVCL st))"
    using assms by (simp add: genMetrics_def render_concat)
next
  show "\<forall>m \<in> set (metrics st).
              render_metric m =
                (''# HELP '' @ full_name m @ '' '' @ GetStringBytes (Value m) ''description'' @ nl)
                @ (''# TYPE '' @ full_name m @ '' ''
                     @ (if flag_is_g (Value m) then ''gauge'' else ''counter'') @ nl)
                @ (full_name m @ formatLabel (Labels m) @ '' ''
                     @ itoa (GetInt (Value m) ''value'') @ nl)"
    by (simp add: render_metric_lines)
next
  fix members :: "(string \<times> json) list"
  assume "distinct (map fst members)"
  then show "flag_is_g (JObject (fmap_of_list members))
                = ((''flag'', JString ''g'') \<in> set members)"
    by (rule flag_is_g_member)
qed

lemma collect_gauge_example:
  "collect id [(''SMA.s0.g_bytes'', JObject (fmap_of_list [(''flag'', JString ''g'')]))] []
   = Inr \<lparr>activeVCL = [],
          metrics = [\<lparr>Category = ''sma'', Name = ''g_bytes'', Labels = [(''type'', ''s0'')],
                      Value = JObject (fmap_of_list [(''flag'', JString ''g'')])\<rparr>],
          printed = [], logged = []\<rparr>"
  by code_simp

theorem type_line_gauge_iff_flag_g_witness:
  "collect id [(''SMA.s0.g_bytes'', JObject (fmap_of_list [(''flag'', JString ''g'')]))] []
   = Inr \<lparr>activeVCL = [],
          metrics = [\<lparr>Category = ''sma'', Name = ''g_bytes'', Labels = [(''type'', ''s0'')],
                      Value = JObject (fmap_of_list [(''flag'', JString ''g'')])\<rparr>],
          printed = [], logged = []\<rparr>
   \<and> genMetrics id [(''SMA.s0.g_bytes'', JObject (fmap_of_list [(''flag'', JString ''g'')]))] []
     = Inr (''# HELP varnish_sma_g_bytes '' @ nl
            @ ''# TYPE varnish_sma_g_bytes gauge'' @ nl
            @ ''varnish_sma_g_bytes{type='' @ dq @ ''s0'' @ dq @ ''} 0'' @ nl
            @ active_vcl_block [])
   \<and> distinct (map fst [(''flag'', JString ''g'')])
   \<and> flag_is_g (JObject (fmap_of_list [(''flag'', JString ''g'')]))
     = ((''flag'', JString ''g'') \<in> set [(''flag'', JString ''g'')])"
proof -
  note run = collect_gauge_example
  note t = type_line_gauge_iff_flag_g [OF run]
  have d: "distinct (map fst [(''flag'', JString ''g'')])" by simp
  have "flag_is_g (JObject (fmap_of_list [(''flag'', JString ''g'')]))"
    by (simp add: flag_is_g_def)
  moreover have "GetStringBytes (JObject (fmap_of_list [(''flag'', JString ''g'')])) ''description'' = []"
    by (simp add: GetStringBytes_def Get_def)
  moreover have "GetInt (JObject (fmap_of_list [(''flag'', JString ''g'')])) ''value'' = 0"
    by (simp add: GetInt_def Get_def)
  moreover have "itoa 0 = ''0''"
    by code_simp
  moreover have "formatLabel [(''type'', ''s0'')] = ''{type='' @ dq @ ''s0'' @ dq @ ''}''"
    by (simp add: formatLabel_def formatLabel_step_def)
  ultimately have c1: "genMetrics id
        [(''SMA.s0.g_bytes'', JObject (fmap_of_list [(''flag'', JString ''g'')]))] []
     = Inr (''# HELP varnish_sma_g_bytes '' @ nl
            @ ''# TYPE varnish_sma_g_bytes gauge'' @ nl
            @ ''varnish_sma_g_bytes{type='' @ dq @ ''s0'' @ dq @ ''} 0'' @ nl
            @ active_vcl_block [])"
    using t by (simp add: full_name_def)
  from t d have c2: "flag_is_g (JObject (fmap_of_list [(''flag'', JString ''g'')]))
     = ((''flag'', JString ''g'') \<in> set [(''flag'', JString ''g'')])"
    by blast
  from run c1 d c2 show ?thesis by (intro conjI)
qed

section \<open>Labels of the collected metrics\<close>

lemma permutation_of_short_list:
  assumes "length xs \<le> 1" and "mset ys = mset xs"
  shows "ys = xs"
proof (cases xs)
  case Nil
  then show ?thesis using assms(2) by simp
next
  case (Cons x rest)
  then have "xs = [x]" using assms(1) by simp
  then show ?thesis using assms(2) by simp
qed

lemma collect_metrics_labels:
  assumes "collect ul obj act = Inr st" and "m \<in> set (metrics st)"
  shows "Category m \<in> set [''backend'', ''mempool'', ''sma'', ''lock'', ''smf'']
           \<and> length (Labels m) = 1
         \<or> Category m \<in> set [''main'', ''mgt''] \<and> Labels m = []"
proof -
  let ?P = "\<lambda>m. Category m \<in> set [''backend'', ''mempool'', ''sma'', ''lock'', ''smf'']
                  \<and> length (Labels m) = 1
                \<or> Category m \<in> set [''main'', ''mgt''] \<and> Labels m = []"
  have "\<forall>m \<in> set (metrics st). ?P m"
  proof (rule Visit_metrics_invariant [where P = ?P and st = "init_state act"])
    show "Visit (visit ul) obj (init_state act) = Inr st"
      using assms(1) by (simp add: collect_def)
    show "\<forall>m \<in> set (metrics (init_state act)). ?P m"
      by (simp add: init_state_def)
    show "\<And>k v. recognized k \<Longrightarrow> ?P (table_metric ul k v)"
      by (rule table_metric_labels)
  qed
  then show ?thesis using assms(2) by blast
qed

text \<open>
  Claim C10. Every Metric that \<open>genMetrics\<close> collects has at most one label entry:
  exactly one when its category is \<open>backend\<close>, \<open>mempool\<close>, \<open>sma\<close>, \<open>lock\<close> or \<open>smf\<close>,
  none when it is \<open>main\<close> or \<open>mgt\<close>. Hence \<open>formatLabel\<close> gives the same label block
  whatever the order in which the entries of the label map are visited. (The walk over
  any initial part of the object is a walk of its own, so this covers the Metrics
  collected before a panic as well.)
\<close>

theorem labels_at_most_one:
  assumes "collect ul obj act = Inr st" and "m \<in> set (metrics st)"
  shows "(Category m \<in> set [''backend'', ''mempool'', ''sma'', ''lock'', ''smf'']
            \<and> length (Labels m) = 1
          \<or> Category m \<in> set [''main'', ''mgt''] \<and> length (Labels m) = 0)
         \<and> length (Labels m) \<le> 1
         \<and> (\<forall>entries. mset entries = mset (Labels m)
                \<longrightarrow> formatLabel entries = formatLabel (Labels m))"
proof -
  have c: "Category m \<in> set [''backend'', ''mempool'', ''sma'', ''lock'', ''smf'']
             \<and> length (Labels m) = 1
           \<or> Category m \<in> set [''main'', ''mgt''] \<and> Labels m = []"
    using assms by (rule collect_metrics_labels)
  have le: "length (Labels m) \<le> 1"
  proof (rule disjE [OF c])
    assume "Category m \<in> set [''backend'', ''mempool'', ''sma'', ''lock'', ''smf'']
             \<and> length (Labels m) = 1"
    then have "length (Labels m) = 1" by (rule conjunct2)
    then show ?thesis by simp
  next
    assume "Category m \<in> set [''main'', ''mgt''] \<and> Labels m = []"
    then have "Labels m = []" by (rule conjunct2)
    then show ?thesis by simp
  qed
  have perm: "\<forall>entries. mset entries = mset (Labels m)
          \<longrightarrow> formatLabel entries = formatLabel (Labels m)"
    using permutation_of_short_list [OF le] by blast
  have c': "Category m \<in> set [''backend'', ''mempool'', ''sma'', ''lock'', ''smf'']
            \<and> length (Labels m) = 1
          \<or> Category m \<in> set [''main'', ''mgt''] \<and> length (Labels m) = 0"
    using c by (simp only: length_0_conv)
  from c' le perm show ?thesis by (intro conjI)
qed

lemma collect_two_categories_example:
  "collect id [(''LCK.vbe.creat'', JNull), (''MGT.uptime'', JNull)] ''boot''
   = Inr \<lparr>activeVCL = ''boot'',
          metrics = [\<lparr>Category = ''lock'', Name = ''creat'', Labels = [(''target'', ''vbe'')],
                      Value = JNull\<rparr>,
                     \<lparr>Category = ''mgt'', Name = ''uptime'', Labels = [], Value = JNull\<rparr>],
          printed = [], logged = []\<rparr>"
  by code_simp

theorem labels_at_most_one_witness:
  "collect id [(''LCK.vbe.creat'', JNull), (''MGT.uptime'', JNull)] ''boot''
   = Inr \<lparr>activeVCL = ''boot'',
          metrics = [\<lparr>Category = ''lock'', Name = ''creat'', Labels = [(''target'', ''vbe'')],
                      Value = JNull\<rparr>,
                     \<lparr>Category = ''mgt'', Name = ''uptime'', Labels = [], Value = JNull\<rparr>],
          printed = [], logged = []\<rparr>
   \<and> length (Labels \<lparr>Category = ''lock'', Name = ''creat'', Labels = [(''target'', ''vbe'')],
                        Value = JNull\<rparr>) \<le> 1
   \<and> length (Labels \<lparr>Category = ''mgt'', Name = ''uptime'', Labels = [], Value = JNull\<rparr>)
       \<le> 1"
proof -
  note run = collect_two_categories_example
  have "length (Labels \<lparr>Category = ''lock'', Name = ''creat'', Labels = [(''target'', ''vbe'')],
                        Value = JNull\<rparr>) \<le> 1"
    by (rule conjunct1 [OF conjunct2 [OF labels_at_most_one [OF run]]]) simp
  moreover
  have "length (Labels \<lparr>Category = ''mgt'', Name = ''uptime'', Labels = [], Value = JNull\<rparr>)
          \<le> 1"
    by (rule conjunct1 [OF conjunct2 [OF labels_at_most_one [OF run]]]) simp
  ultimately show ?thesis using run by (intro conjI)
qed

section \<open>One Metric per retained key\<close>

lemma long_enough_VBE: "is_VBE k \<Longrightarrow> long_enough k \<Longrightarrow> 4 \<le> length (segments k)"
  using is_VBE_recognized [of k] by (simp add: long_enough_def is_VBE_def segments_read_def)

lemma visit_retained:
  assumes "long_enough (fst kv)"
  shows "\<exists>st'. visit ul st kv = Inr st'
           \<and> metrics st' @ retained ul (activeVCL st') rest
               = metrics st @ retained ul (activeVCL st) (kv # rest)"
proof (cases "recognized (fst kv)")
  case False
  then show ?thesis
    using visit_not_recognized [of "fst kv" ul st "snd kv"] by simp
next
  case rec: True
  show ?thesis
  proof (cases "is_VBE (fst kv)")
    case False
    then show ?thesis
      using rec assms visit_not_VBE [of "fst kv" ul st "snd kv"] by (simp add: add_metric_def)
  next
    case vbe: True
    have len: "4 \<le> length (segments (fst kv))"
      using vbe assms by (rule long_enough_VBE)
    show ?thesis
    proof (cases "activeVCL st = [] \<or> revision_id (fst kv) = activeVCL st")
      case True
      then show ?thesis
        using rec vbe visit_VBE_active [OF vbe True len, of ul "snd kv"]
        by (auto simp: add_metric_def)
    next
      case False
      then show ?thesis
        using rec vbe visit_VBE_other_revision [of "fst kv" st ul "snd kv"] by simp
    qed
  qed
qed

lemma Visit_retained:
  assumes "\<forall>kv \<in> set obj. long_enough (fst kv)"
  shows "\<exists>st'. Visit (visit ul) obj st = Inr st'
           \<and> metrics st' = metrics st @ retained ul (activeVCL st) obj"
  using assms
proof (induction obj arbitrary: st)
  case Nil
  then show ?case by simp
next
  case (Cons kv obj)
  from Cons.prems have "long_enough (fst kv)" by simp
  from visit_retained [OF this, of ul st obj] obtain st1 where
    st1: "visit ul st kv = Inr st1" and
    eq: "metrics st1 @ retained ul (activeVCL st1) obj
           = metrics st @ retained ul (activeVCL st) (kv # obj)"
    by blast
  from Cons.prems have "\<forall>kv \<in> set obj. long_enough (fst kv)" by simp
  from Cons.IH [OF this, of st1] obtain st' where
    "Visit (visit ul) obj st1 = Inr st'"
    "metrics st' = metrics st1 @ retained ul (activeVCL st1) obj"
    by blast
  then show ?case using st1 eq by simp
qed

text \<open>
  Claim C1, as amended. Take a counters object in which every recognized key has the
  segments the classification table reads for it (four for \<open>VBE\<close>, three for \<open>MEMPOOL\<close>,
  \<open>SMA\<close>, \<open>LCK\<close> and \<open>SMF\<close>, two for \<open>MAIN\<close> and \<open>MGT\<close>). Then the walk of
  \<open>genMetrics\<close> completes, and the Metrics it collects are, in visiting order, exactly one
  Metric with the category, name and labels of the table for every recognized key,
  except that a \<open>VBE\<close> key whose revision id is not the active revision when it is
  visited gives none; the reserved key, keys with fewer than two segments and keys
  with an unrecognized first segment give none.
\<close>

theorem one_metric_per_retained_key:
  assumes "\<forall>kv \<in> set obj. long_enough (fst kv)"
  shows "\<exists>st. collect ul obj act = Inr st \<and> metrics st = retained ul act obj"
  using Visit_retained [OF assms, of ul "init_state act"]
  by (simp add: collect_def init_state_def)

theorem one_metric_per_retained_key_witness:
  "list_all long_enough
     (map fst [(''version'', JString ''1''), (''MEMPOOL.busyobj.live'', JNull),
               (''x.y'', JNull), (''short'', JNull),
               (''VBE.a.be1.conn'', JNull), (''VBE.b.be2.conn'', JNull)])
   \<and> (\<exists>st. collect id
               [(''version'', JString ''1''), (''MEMPOOL.busyobj.live'', JNull),
                (''x.y'', JNull), (''short'', JNull),
                (''VBE.a.be1.conn'', JNull), (''VBE.b.be2.conn'', JNull)] []
             = Inr st
           \<and> metrics st
             = [\<lparr>Category = ''mempool'', Name = ''live'', Labels = [(''name'', ''busyobj'')],
                 Value = JNull\<rparr>,
                \<lparr>Category = ''backend'', Name = ''conn'', Labels = [(''name'', ''be1'')],
                 Value = JNull\<rparr>])"
proof -
  let ?obj = "[(''version'', JString ''1''), (''MEMPOOL.busyobj.live'', JNull),
               (''x.y'', JNull), (''short'', JNull),
               (''VBE.a.be1.conn'', JNull), (''VBE.b.be2.conn'', JNull)]"
  have h: "list_all long_enough (map fst ?obj)"
    by code_simp
  then have "\<forall>kv \<in> set ?obj. long_enough (fst kv)"
    by (simp only: list_all_iff set_map) blast
  from one_metric_per_retained_key [OF this, of id "[]"] obtain st where
    "collect id ?obj [] = Inr st" "metrics st = retained id [] ?obj"
    by blast
  moreover have "retained id [] ?obj
      = [\<lparr>Category = ''mempool'', Name = ''live'', Labels = [(''name'', ''busyobj'')],
          Value = JNull\<rparr>,
         \<lparr>Category = ''backend'', Name = ''conn'', Labels = [(''name'', ''be1'')],
          Value = JNull\<rparr>]"
    by code_simp
  ultimately show ?thesis using h by auto
qed

text \<open>
  Claim C1 as stated fails: with the active revision \<open>boot\<close>, the two recognized keys
  \<open>VBE.old.be1.conn\<close> and \<open>MAIN.uptime\<close> give one Metric, not two.
\<close>

theorem one_metric_per_recognized_key_counterexample:
  "recognized ''VBE.old.be1.conn'' \<and> recognized ''MAIN.uptime''
   \<and> collect id [(''VBE.old.be1.conn'', JNull), (''MAIN.uptime'', JNull)] ''boot''
     = Inr \<lparr>activeVCL = ''boot'',
            metrics = [\<lparr>Category = ''main'', Name = ''uptime'', Labels = [], Value = JNull\<rparr>],
            printed = [''VBE.old.be1.conn''], logged = []\<rparr>"
  by code_simp

section \<open>The trailing block\<close>

lemma full_name_not_active_vcl:
  assumes "Category m \<in> set [''backend'', ''mempool'', ''sma'', ''lock'', ''smf'', ''main'', ''mgt'']"
  shows "full_name m \<noteq> ''varnish_active_vcl''"
  using assms by (auto simp: full_name_def)

lemma one_step_total:
  assumes "\<forall>kv \<in> set obj. long_enough (fst kv)"
  shows "\<exists>text. genMetrics ul obj act = Inr text"
  using Visit_retained [OF assms, of ul "init_state act"]
  by (auto simp: genMetrics_def collect_def)

lemma collect_metrics_category:
  assumes "collect ul obj act = Inr st" and "m \<in> set (metrics st)"
  shows "Category m \<in> set [''backend'', ''mempool'', ''sma'', ''lock'', ''smf'', ''main'', ''mgt'']"
proof (rule disjE [OF collect_metrics_labels [OF assms]])
  assume "Category m \<in> set [''backend'', ''mempool'', ''sma'', ''lock'', ''smf'']
            \<and> length (Labels m) = 1"
  then have "Category m \<in> set [''backend'', ''mempool'', ''sma'', ''lock'', ''smf'']"
    by (rule conjunct1)
  then show ?thesis by (simp only: list.set insert_iff empty_iff) (elim disjE, simp_all)
next
  assume "Category m \<in> set [''main'', ''mgt''] \<and> Labels m = []"
  then have "Category m \<in> set [''main'', ''mgt'']" by (rule conjunct1)
  then show ?thesis by (simp only: list.set insert_iff empty_iff) (elim disjE, simp_all)
qed

lemma one_line_append: "one_line (a @ b) \<longleftrightarrow> one_line a \<and> one_line b"
  by (auto simp: one_line_def)

lemma one_line_Nil: "one_line []"
  by (simp add: one_line_def)

lemma first_newline_unique:
  assumes "one_line a" and "one_line c" and "a @ nl @ b = c @ nl @ d"
  shows "a = c \<and> b = d"
  using assms
proof (induction a arbitrary: c)
  case Nil
  then show ?case by (cases c) (auto simp: one_line_def nl_def)
next
  case (Cons x a)
  then show ?case by (cases c) (auto simp: one_line_def nl_def)
qed

lemma terminated_Cons: "terminated (l # ls) = l @ nl @ terminated ls"
  by (simp add: terminated_def)

lemma terminated_append: "terminated (xs @ ys) = terminated xs @ terminated ys"
  by (simp add: terminated_def)

lemma terminated_first_line:
  assumes "\<forall>l \<in> set ls. one_line l" and "one_line y" and "terminated ls = y @ nl @ post"
  shows "\<exists>rest. ls = y # rest \<and> post = terminated rest"
proof (cases ls)
  case Nil
  then show ?thesis using assms(3) by (simp add: terminated_def nl_def)
next
  case (Cons l rest)
  then have "one_line l" using assms(1) by simp
  moreover have "l @ nl @ terminated rest = y @ nl @ post"
    using assms(3) Cons by (simp add: terminated_Cons)
  ultimately have "l = y \<and> terminated rest = post"
    using assms(2) first_newline_unique by blast
  then show ?thesis using Cons by simp
qed

lemma terminated_inner_line:
  assumes "\<forall>l \<in> set ls. one_line l" and "one_line y"
    and "terminated ls = pre @ nl @ y @ nl @ post"
  shows "\<exists>i. Suc i < length ls \<and> ls ! Suc i = y \<and> pre @ nl = terminated (take (Suc i) ls)"
  using assms
proof (induction ls arbitrary: pre)
  case Nil
  then show ?case by (simp add: terminated_def nl_def)
next
  case (Cons l ls)
  have l: "one_line l" and rest: "\<forall>l \<in> set ls. one_line l" using Cons.prems(1) by simp_all
  have eq: "l @ nl @ terminated ls = pre @ nl @ y @ nl @ post"
    using Cons.prems(3) by (simp add: terminated_Cons)
  show ?case
  proof (cases "one_line pre")
    case True
    from first_newline_unique [OF l True eq]
    have "l = pre" and "terminated ls = y @ nl @ post" by simp_all
    with terminated_first_line [OF rest Cons.prems(2)] obtain tl' where "ls = y # tl'"
      by blast
    then have "Suc 0 < length (l # ls) \<and> (l # ls) ! Suc 0 = y
                 \<and> pre @ nl = terminated (take (Suc 0) (l # ls))"
      using \<open>l = pre\<close> by (simp add: terminated_def)
    then show ?thesis by blast
  next
    case False
    then have "CHR 0x0A \<in> set pre" by (simp add: one_line_def)
    then obtain p1 p2 where pre: "pre = p1 @ CHR 0x0A # p2" and p1: "CHR 0x0A \<notin> set p1"
      using split_list_first by metis
    have "one_line p1" using p1 by (simp add: one_line_def)
    moreover have "l @ nl @ terminated ls = p1 @ nl @ (p2 @ nl @ y @ nl @ post)"
      using eq pre by (simp add: nl_def)
    ultimately have "l = p1" and "terminated ls = p2 @ nl @ y @ nl @ post"
      using first_newline_unique [OF l] by blast+
    from Cons.IH [OF rest Cons.prems(2) this(2)] obtain i where
      i: "Suc i < length ls" "ls ! Suc i = y" "p2 @ nl = terminated (take (Suc i) ls)"
      by blast
    have "pre @ nl = terminated (take (Suc (Suc i)) (l # ls))"
      using i(3) pre \<open>l = p1\<close> by (simp add: terminated_Cons nl_def)
    then have "Suc (Suc i) < length (l # ls) \<and> (l # ls) ! Suc (Suc i) = y
                 \<and> pre @ nl = terminated (take (Suc (Suc i)) (l # ls))"
      using i(1,2) by simp
    then show ?thesis by blast
  qed
qed

lemma render_metric_terminated: "render_metric m = terminated (metric_lines m)"
  by (simp add: render_metric_def metric_lines_def terminated_def Let_def)

lemma active_vcl_block_terminated: "active_vcl_block r = terminated (block_lines r)"
  by (simp add: active_vcl_block_def block_lines_def terminated_def)

lemma concat_render_metric_terminated:
  "concat (map render_metric ms) = terminated (concat (map metric_lines ms))"
  by (induction ms) (simp_all add: terminated_append render_metric_terminated, simp add: terminated_def)

lemma render_terminated:
  "render ms act = terminated (concat (map metric_lines ms) @ block_lines act)"
  by (simp add: render_concat terminated_append concat_render_metric_terminated
      active_vcl_block_terminated)

lemma one_line_digits: "one_line (digits n)"
proof (induction n rule: digits.induct)
  case (1 n)
  have d: "\<And>k::nat. k < 10 \<Longrightarrow> char_of (48 + k) \<noteq> CHR 0x0A"
  proof
    fix k :: nat
    assume "k < 10" and "char_of (48 + k) = CHR 0x0A"
    then have "of_char (char_of (48 + k) :: char) = (of_char (CHR 0x0A) :: nat)" by simp
    then have "(48 + k) mod 256 = 10" by (simp add: of_char_of)
    with \<open>k < 10\<close> show False by simp
  qed
  show ?case
  proof (cases "n < 10")
    case True
    then show ?thesis using d [of n] by (subst digits.simps) (simp add: one_line_def)
  next
    case False
    have "n mod 10 < 10" by simp
    then have "char_of (48 + n mod 10) \<noteq> CHR 0x0A" by (rule d)
    then show ?thesis
      using False "1.IH" by (subst digits.simps) (simp add: one_line_def)
  qed
qed

lemma one_line_itoa: "one_line (itoa i)"
  using one_line_digits by (simp add: itoa_def one_line_def)

lemma one_line_join:
  "\<forall>x \<in> set xs. one_line x \<Longrightarrow> one_line sep \<Longrightarrow> one_line (join sep xs)"
  by (induction sep xs rule: join.induct) (simp_all add: one_line_append one_line_Nil)

lemma one_line_formatLabel:
  assumes "list_all (\<lambda>nv. one_line (fst nv) \<and> one_line (snd nv)) labels"
  shows "one_line (formatLabel labels)"
proof (cases "labels = []")
  case True
  then show ?thesis by (simp add: formatLabel_Nil one_line_Nil)
next
  case False
  have "\<forall>x \<in> set (map label_pair labels). one_line x"
    using assms by (auto simp: list_all_iff label_pair_def one_line_def dq_def)
  then have "one_line (join '','' (map label_pair labels))"
    by (rule one_line_join) (simp add: one_line_def)
  then show ?thesis
    using False by (simp add: formatLabel_nonempty one_line_def)
qed

lemma one_line_full_name:
  assumes "Category m \<in> set [''backend'', ''mempool'', ''sma'', ''lock'', ''smf'', ''main'', ''mgt'']"
    and "one_line (Name m)"
  shows "one_line (full_name m)"
  using assms by (auto simp: full_name_def one_line_def)

lemma one_line_metric_lines:
  assumes "Category m \<in> set [''backend'', ''mempool'', ''sma'', ''lock'', ''smf'', ''main'', ''mgt'']"
    and "one_line_metric m"
  shows "\<forall>l \<in> set (metric_lines m). one_line l"
proof -
  have n: "one_line (full_name m)"
    using assms by (simp add: one_line_full_name one_line_metric_def)
  have d: "one_line (GetStringBytes (Value m) ''description'')"
    using assms(2) by (simp add: one_line_metric_def)
  have f: "one_line (formatLabel (Labels m))"
    using assms(2) by (simp add: one_line_metric_def one_line_formatLabel)
  have t: "one_line (type_of_flag (GetStringBytes (Value m) ''flag''))"
    by (simp add: type_of_flag_def one_line_def)
  have c: "one_line ''# HELP ''" "one_line ''# TYPE ''" "one_line '' ''"
    by (simp_all add: one_line_def)
  show ?thesis
    using n d f t c one_line_itoa [of "GetInt (Value m) ''value''"]
    by (simp add: metric_lines_def one_line_append del: append.simps)
qed

lemma one_line_block_lines: "one_line act \<Longrightarrow> \<forall>l \<in> set (block_lines act). one_line l"
  by (simp add: block_lines_def one_line_def dq_def)

lemma metric_lines_not_type_line:
  assumes "Category m \<in> set [''backend'', ''mempool'', ''sma'', ''lock'', ''smf'', ''main'', ''mgt'']"
  shows "\<forall>l \<in> set (metric_lines m). l \<noteq> ''# TYPE varnish_active_vcl gauge''"
  using assms by (auto simp: metric_lines_def full_name_def)

lemma revision_between_quotes:
  assumes "one_line act" and "act @ dq @ ''} 1'' @ nl = r @ dq @ ''} 1'' @ nl @ after"
  shows "r = act \<and> after = []"
proof (cases "one_line r")
  case True
  have "one_line (act @ dq @ ''} 1'')" "one_line (r @ dq @ ''} 1'')"
    using assms(1) True by (simp_all add: one_line_def dq_def)
  moreover have "(act @ dq @ ''} 1'') @ nl @ [] = (r @ dq @ ''} 1'') @ nl @ after"
    using assms(2) by simp
  ultimately have "act @ dq @ ''} 1'' = r @ dq @ ''} 1'' \<and> [] = after"
    by (rule first_newline_unique)
  then show ?thesis by simp
next
  case False
  then have "CHR 0x0A \<in> set r" by (simp add: one_line_def)
  then obtain r1 r2 where r: "r = r1 @ CHR 0x0A # r2" and r1: "CHR 0x0A \<notin> set r1"
    using split_list_first by metis
  have "one_line (act @ dq @ ''} 1'')" "one_line r1"
    using assms(1) r1 by (simp_all add: one_line_def dq_def)
  moreover have "(act @ dq @ ''} 1'') @ nl @ [] = r1 @ nl @ (r2 @ dq @ ''} 1'' @ nl @ after)"
    using assms(2) r by (simp add: nl_def)
  ultimately have "act @ dq @ ''} 1'' = r1 \<and> [] = r2 @ dq @ ''} 1'' @ nl @ after"
    by (rule first_newline_unique)
  then show ?thesis by (simp add: nl_def)
qed

lemma only_block_is_last:
  assumes cat: "\<forall>m \<in> set ms. Category m
                  \<in> set [''backend'', ''mempool'', ''sma'', ''lock'', ''smf'', ''main'', ''mgt'']"
    and ol: "list_all one_line_metric ms" and act: "one_line act"
    and occ: "render ms act = before @ active_vcl_block r @ after"
  shows "before = concat (map render_metric ms) \<and> r = act \<and> after = []"
proof -
  let ?h = "''# HELP varnish_active_vcl vcl version''"
  let ?t = "''# TYPE varnish_active_vcl gauge''"
  let ?s = "\<lambda>a. ''varnish_active_vcl{version='' @ dq @ a @ dq @ ''} 1''"
  let ?mls = "concat (map metric_lines ms)"
  let ?ls = "?mls @ block_lines act"
  have bl: "\<And>a. block_lines a = [?h, ?t, ?s a]" by (simp add: block_lines_def)
  have mls_one: "\<forall>l \<in> set ?mls. one_line l"
    using cat ol one_line_metric_lines by (auto simp: list_all_iff)
  have mls_not: "\<forall>l \<in> set ?mls. l \<noteq> ?t"
    using cat metric_lines_not_type_line by (simp only: set_concat set_map) blast
  have all_one: "\<forall>l \<in> set ?ls. one_line l"
    using mls_one one_line_block_lines [OF act] by auto
  have t_one: "one_line ?t" by (simp add: one_line_def)
  have whole: "terminated ?ls = (before @ ?h) @ nl @ ?t @ nl @ (?s r @ nl @ after)"
    using occ by (simp add: render_terminated active_vcl_block_terminated bl terminated_def)
  from terminated_inner_line [OF all_one t_one whole] obtain i where
    i: "Suc i < length ?ls" "?ls ! Suc i = ?t" "(before @ ?h) @ nl = terminated (take (Suc i) ?ls)"
    by blast
  have len: "length ?ls = length ?mls + 3" by (simp add: bl)
  have "i = length ?mls"
  proof (rule ccontr)
    assume ne: "i \<noteq> length ?mls"
    consider "Suc i < length ?mls" | "Suc i = length ?mls" | "Suc i = length ?mls + 2"
      using i(1) len ne by linarith
    then show False
    proof cases
      case 1
      then have "?ls ! Suc i = ?mls ! Suc i" by (simp only: nth_append if_True)
      moreover have "?mls ! Suc i \<in> set ?mls" using 1 by (rule nth_mem)
      ultimately have "?ls ! Suc i \<in> set ?mls" by (simp only:)
      then show False using mls_not i(2) by blast
    next
      case 2
      then have "?ls ! Suc i = ?h" by (simp add: nth_append bl)
      then show False using i(2) by simp
    next
      case 3
      then have "?ls ! Suc i = ?s act" by (simp add: nth_append bl)
      then show False using i(2) by simp
    qed
  qed
  then have "take (Suc i) ?ls = ?mls @ [?h]" by (simp add: bl)
  then have "(before @ ?h) @ nl = terminated ?mls @ ?h @ nl"
    using i(3) by (simp add: terminated_append, simp add: terminated_def)
  then have before: "before = terminated ?mls" by simp
  have "terminated ?ls = terminated ?mls @ ?h @ nl @ ?t @ nl @ ?s act @ nl"
    by (simp add: terminated_append bl, simp add: terminated_def)
  with whole before have "?s act @ nl = ?s r @ nl @ after" by simp
  then have "act @ dq @ ''} 1'' @ nl = r @ dq @ ''} 1'' @ nl @ after" by simp
  with act have "r = act \<and> after = []" by (rule revision_between_quotes)
  then show ?thesis using before by (simp add: concat_render_metric_terminated)
qed

text \<open>
  Claim C4, as amended. Whatever the counters object and the active revision, a text
  returned by \<open>genMetrics\<close> is the blocks of the collected metrics followed by the
  block of \<open>varnish_active_vcl\<close>: its \<open># HELP\<close> line, its \<open># TYPE\<close> line with type
  \<open>gauge\<close>, and a sample with a \<open>version\<close> label and the value 1. That block is the end
  of the text whatever keys are present, and no collected metric is named
  \<open>varnish_active_vcl\<close>. When the active revision written in the label and the name,
  the description and the label entries of every collected metric hold no newline,
  the text contains the block exactly once: wherever the text reads as some text, a
  \<open>varnish_active_vcl\<close> block of any version label, and some text, the block is the
  trailing one. A text is returned whenever every recognized key has the segments the
  table reads.
\<close>

theorem active_vcl_block_last_and_once_if_one_line:
  "((\<forall>kv \<in> set obj. long_enough (fst kv)) \<longrightarrow> (\<exists>t. genMetrics ul obj act = Inr t))
   \<and> (genMetrics ul obj act = Inr text \<longrightarrow>
        (\<exists>st. collect ul obj act = Inr st
           \<and> text = concat (map render_metric (metrics st))
                    @ ''# HELP varnish_active_vcl vcl version'' @ nl
                    @ ''# TYPE varnish_active_vcl gauge'' @ nl
                    @ ''varnish_active_vcl{version='' @ dq @ activeVCL st @ dq @ ''} 1'' @ nl
           \<and> (\<forall>m \<in> set (metrics st). full_name m \<noteq> ''varnish_active_vcl'')
           \<and> (one_line (activeVCL st) \<and> list_all one_line_metric (metrics st) \<longrightarrow>
                (\<forall>before r after.
                   text = before @ active_vcl_block r @ after \<longrightarrow>
                   before = concat (map render_metric (metrics st))
                   \<and> r = activeVCL st \<and> after = []))))"
proof (intro conjI impI)
  assume "\<forall>kv \<in> set obj. long_enough (fst kv)"
  from one_step_total [OF this] show "\<exists>t. genMetrics ul obj act = Inr t" .
next
  assume ret: "genMetrics ul obj act = Inr text"
  then obtain st where st: "collect ul obj act = Inr st"
    and out: "text = render (metrics st) (activeVCL st)"
    by (auto simp: genMetrics_def split: sum.splits)
  have cat: "\<forall>m \<in> set (metrics st). Category m
               \<in> set [''backend'', ''mempool'', ''sma'', ''lock'', ''smf'', ''main'', ''mgt'']"
    using collect_metrics_category [OF st] by blast
  have shape: "text = concat (map render_metric (metrics st))
                  @ ''# HELP varnish_active_vcl vcl version'' @ nl
                  @ ''# TYPE varnish_active_vcl gauge'' @ nl
                  @ ''varnish_active_vcl{version='' @ dq @ activeVCL st @ dq @ ''} 1'' @ nl"
    using out by (simp add: render_concat active_vcl_block_def)
  have names: "\<forall>m \<in> set (metrics st). full_name m \<noteq> ''varnish_active_vcl''"
    using cat full_name_not_active_vcl by blast
  have once: "one_line (activeVCL st) \<and> list_all one_line_metric (metrics st) \<longrightarrow>
                (\<forall>before r after.
                   text = before @ active_vcl_block r @ after \<longrightarrow>
                   before = concat (map render_metric (metrics st))
                   \<and> r = activeVCL st \<and> after = [])"
  proof (intro impI allI)
    fix before r after
    assume ol: "one_line (activeVCL st) \<and> list_all one_line_metric (metrics st)"
      and occ: "text = before @ active_vcl_block r @ after"
    from ol have a: "one_line (activeVCL st)" and b: "list_all one_line_metric (metrics st)"
      by simp_all
    from occ out have "render (metrics st) (activeVCL st) = before @ active_vcl_block r @ after"
      by simp
    with cat b a show "before = concat (map render_metric (metrics st))
                   \<and> r = activeVCL st \<and> after = []"
      by (rule only_block_is_last)
  qed
  from st shape names once
  show "\<exists>st. collect ul obj act = Inr st
           \<and> text = concat (map render_metric (metrics st))
                    @ ''# HELP varnish_active_vcl vcl version'' @ nl
                    @ ''# TYPE varnish_active_vcl gauge'' @ nl
                    @ ''varnish_active_vcl{version='' @ dq @ activeVCL st @ dq @ ''} 1'' @ nl
           \<and> (\<forall>m \<in> set (metrics st). full_name m \<noteq> ''varnish_active_vcl'')
           \<and> (one_line (activeVCL st) \<and> list_all one_line_metric (metrics st) \<longrightarrow>
                (\<forall>before r after.
                   text = before @ active_vcl_block r @ after \<longrightarrow>
                   before = concat (map render_metric (metrics st))
                   \<and> r = activeVCL st \<and> after = []))"
    by blast
qed

lemma collect_main_uptime_example:
  "collect id [(''MAIN.uptime'', JNull)] ''boot''
   = Inr \<lparr>activeVCL = ''boot'',
          metrics = [\<lparr>Category = ''main'', Name = ''uptime'', Labels = [], Value = JNull\<rparr>],
          printed = [], logged = []\<rparr>"
  by code_simp

theorem active_vcl_block_last_and_once_if_one_line_witness:
  "list_all long_enough (map fst [(''MAIN.uptime'', JNull)])
   \<and> (\<exists>t. genMetrics id [(''MAIN.uptime'', JNull)] ''boot'' = Inr t)
   \<and> genMetrics id [(''MAIN.uptime'', JNull)] ''boot''
       = Inr (''# HELP varnish_main_uptime '' @ nl
              @ ''# TYPE varnish_main_uptime counter'' @ nl
              @ ''varnish_main_uptime 0'' @ nl
              @ ''# HELP varnish_active_vcl vcl version'' @ nl
              @ ''# TYPE varnish_active_vcl gauge'' @ nl
              @ ''varnish_active_vcl{version='' @ dq @ ''boot'' @ dq @ ''} 1'' @ nl)
   \<and> one_line ''boot''
   \<and> list_all one_line_metric
        [\<lparr>Category = ''main'', Name = ''uptime'', Labels = [], Value = JNull\<rparr>]
   \<and> (\<exists>st. collect id [(''MAIN.uptime'', JNull)] ''boot'' = Inr st
          \<and> ''# HELP varnish_main_uptime '' @ nl
            @ ''# TYPE varnish_main_uptime counter'' @ nl
            @ ''varnish_main_uptime 0'' @ nl
            = concat (map render_metric (metrics st))
          \<and> ''boot'' = activeVCL st)"
proof -
  let ?obj = "[(''MAIN.uptime'', JNull)]"
  let ?m = "\<lparr>Category = ''main'', Name = ''uptime'', Labels = [], Value = JNull\<rparr>"
  let ?before = "''# HELP varnish_main_uptime '' @ nl
              @ ''# TYPE varnish_main_uptime counter'' @ nl
              @ ''varnish_main_uptime 0'' @ nl"
  let ?text = "''# HELP varnish_main_uptime '' @ nl
              @ ''# TYPE varnish_main_uptime counter'' @ nl
              @ ''varnish_main_uptime 0'' @ nl
              @ ''# HELP varnish_active_vcl vcl version'' @ nl
              @ ''# TYPE varnish_active_vcl gauge'' @ nl
              @ ''varnish_active_vcl{version='' @ dq @ ''boot'' @ dq @ ''} 1'' @ nl"
  have h: "list_all long_enough (map fst ?obj)"
    by code_simp
  then have h': "\<forall>kv \<in> set ?obj. long_enough (fst kv)"
    by (simp only: list_all_iff set_map) blast
  have run: "genMetrics id ?obj ''boot'' = Inr ?text"
    by code_simp
  have o1: "one_line ''boot''" by (simp add: one_line_def)
  have o2: "list_all one_line_metric [?m]"
    by (simp add: one_line_metric_def one_line_def GetStringBytes_def Get_def)
  note t = active_vcl_block_last_and_once_if_one_line [of ?obj id "''boot''" ?text]
  from t h' have c1: "\<exists>t. genMetrics id ?obj ''boot'' = Inr t" by (rule mp [OF conjunct1])
  from t run obtain st where st: "collect id ?obj ''boot'' = Inr st"
    and once: "one_line (activeVCL st) \<and> list_all one_line_metric (metrics st) \<longrightarrow>
                (\<forall>before r after.
                   ?text = before @ active_vcl_block r @ after \<longrightarrow>
                   before = concat (map render_metric (metrics st))
                   \<and> r = activeVCL st \<and> after = [])"
    by blast
  have st0: "st = \<lparr>activeVCL = ''boot'', metrics = [?m], printed = [], logged = []\<rparr>"
    using st collect_main_uptime_example by simp
  have "one_line (activeVCL st) \<and> list_all one_line_metric (metrics st)"
    using o1 o2 by (simp add: st0)
  moreover have "?text = ?before @ active_vcl_block ''boot'' @ []"
    by (simp add: active_vcl_block_def)
  ultimately have "?before = concat (map render_metric (metrics st)) \<and> ''boot'' = activeVCL st"
    using once by blast
  with st have c2: "\<exists>st. collect id ?obj ''boot'' = Inr st
          \<and> ?before = concat (map render_metric (metrics st))
          \<and> ''boot'' = activeVCL st"
    by blast
  from h c1 run o1 o2 c2 show ?thesis by (intro conjI)
qed

text \<open>
  Claim C4 as stated fails: strings are copied into the text as they are, so with no
  counters at all and an active revision that holds the end of one block and the
  beginning of the next, the text is two \<open>varnish_active_vcl\<close> blocks.
\<close>

theorem active_vcl_block_twice_counterexample:
  "genMetrics id []
     (''x'' @ dq @ ''} 1'' @ nl
      @ ''# HELP varnish_active_vcl vcl version'' @ nl
      @ ''# TYPE varnish_active_vcl gauge'' @ nl
      @ ''varnish_active_vcl{version='' @ dq @ ''y'')
   = Inr (''# HELP varnish_active_vcl vcl version'' @ nl
          @ ''# TYPE varnish_active_vcl gauge'' @ nl
          @ ''varnish_active_vcl{version='' @ dq @ ''x'' @ dq @ ''} 1'' @ nl
          @ ''# HELP varnish_active_vcl vcl version'' @ nl
          @ ''# TYPE varnish_active_vcl gauge'' @ nl
          @ ''varnish_active_vcl{version='' @ dq @ ''y'' @ dq @ ''} 1'' @ nl)"
  by code_simp

section \<open>The active revision\<close>

lemma add_metric_activeVCL_update:
  "add_metric (st\<lparr>activeVCL := a\<rparr>) m = (add_metric st m)\<lparr>activeVCL := a\<rparr>"
  by (simp add: add_metric_def)

lemma visit_not_VBE_activeVCL:
  assumes "\<not> is_VBE (fst kv)"
  shows "visit ul (st\<lparr>activeVCL := a\<rparr>) kv
           = map_sum id (\<lambda>s. s\<lparr>activeVCL := a\<rparr>) (visit ul st kv)"
proof (cases "recognized (fst kv)")
  case False
  then show ?thesis
    using visit_not_recognized [of "fst kv" ul _ "snd kv"] by simp
next
  case rec: True
  show ?thesis
  proof (cases "long_enough (fst kv)")
    case True
    then show ?thesis
      using rec assms visit_not_VBE [of "fst kv" ul _ "snd kv"]
      by (simp add: add_metric_activeVCL_update)
  next
    case False
    then show ?thesis
      using rec assms visit_not_VBE_short [of "fst kv" ul _ "snd kv"] by simp
  qed
qed

lemma Visit_no_VBE_activeVCL:
  assumes "\<forall>kv \<in> set pre. \<not> is_VBE (fst kv)"
  shows "Visit (visit ul) pre (st\<lparr>activeVCL := a\<rparr>)
           = map_sum id (\<lambda>s. s\<lparr>activeVCL := a\<rparr>) (Visit (visit ul) pre st)"
  using assms
proof (induction pre arbitrary: st)
  case Nil
  then show ?case by simp
next
  case (Cons kv pre)
  then have kv: "\<not> is_VBE (fst kv)" and rest: "\<forall>kv \<in> set pre. \<not> is_VBE (fst kv)"
    by simp_all
  show ?case
  proof (cases "visit ul st kv")
    case (Inl e)
    then show ?thesis using visit_not_VBE_activeVCL [OF kv, where ul = ul and st = st and a = a] by simp
  next
    case (Inr st1)
    then show ?thesis
      using visit_not_VBE_activeVCL [OF kv, where ul = ul and st = st and a = a] Cons.IH [OF rest, where st = st1] by simp
  qed
qed

lemma Visit_no_VBE_keeps_active:
  assumes "\<forall>kv \<in> set pre. \<not> is_VBE (fst kv)" and "Visit (visit ul) pre st = Inr st1"
  shows "activeVCL st1 = activeVCL st"
proof -
  have "Visit (visit ul) pre (st\<lparr>activeVCL := activeVCL st\<rparr>)
          = map_sum id (\<lambda>s. s\<lparr>activeVCL := activeVCL st\<rparr>) (Visit (visit ul) pre st)"
    using assms(1) by (rule Visit_no_VBE_activeVCL)
  then have "Inr st1 = Inr (st1\<lparr>activeVCL := activeVCL st\<rparr>)"
    using assms(2) by simp
  then have "st1 = st1\<lparr>activeVCL := activeVCL st\<rparr>" by simp
  then have "activeVCL st1 = activeVCL (st1\<lparr>activeVCL := activeVCL st\<rparr>)" by simp
  then show ?thesis by simp
qed

lemma visit_VBE_adopts:
  assumes "is_VBE k"
  shows "visit ul (st\<lparr>activeVCL := []\<rparr>) (k, v) = visit ul (st\<lparr>activeVCL := revision_id k\<rparr>) (k, v)"
proof (cases "4 \<le> length (segments k)")
  case True
  then show ?thesis
    using assms visit_VBE_active [of k "st\<lparr>activeVCL := []\<rparr>" ul v]
      visit_VBE_active [of k "st\<lparr>activeVCL := revision_id k\<rparr>" ul v]
    by simp
next
  case False
  then show ?thesis
    using assms visit_VBE_short [of k "st\<lparr>activeVCL := []\<rparr>" ul v]
      visit_VBE_short [of k "st\<lparr>activeVCL := revision_id k\<rparr>" ul v]
    by simp
qed

lemma collect_adopts_first_revision:
  assumes "\<forall>kv \<in> set pre. \<not> is_VBE (fst kv)" and "is_VBE k"
  shows "collect ul (pre @ (k, v) # post) [] = collect ul (pre @ (k, v) # post) (revision_id k)"
proof -
  let ?r = "revision_id k"
  have init: "init_state [] = (init_state ?r)\<lparr>activeVCL := []\<rparr>"
    by (simp add: init_state_def)
  have pre: "Visit (visit ul) pre (init_state [])
               = map_sum id (\<lambda>s. s\<lparr>activeVCL := []\<rparr>) (Visit (visit ul) pre (init_state ?r))"
    unfolding init using assms(1) by (rule Visit_no_VBE_activeVCL)
  show ?thesis
  proof (cases "Visit (visit ul) pre (init_state ?r)")
    case (Inl e)
    then show ?thesis using pre by (simp add: collect_def Visit_append)
  next
    case (Inr s)
    have "activeVCL s = activeVCL (init_state ?r)"
      using assms(1) Inr by (rule Visit_no_VBE_keeps_active)
    then have s: "s\<lparr>activeVCL := ?r\<rparr> = s" by (simp add: init_state_def)
    have "visit ul (s\<lparr>activeVCL := []\<rparr>) (k, v) = visit ul s (k, v)"
      using visit_VBE_adopts [OF assms(2), where ul = ul and st = s and v = v] s by simp
    then show ?thesis using pre Inr by (simp add: collect_def Visit_append)
  qed
qed

lemma visit_keeps_active:
  assumes "activeVCL st \<noteq> []" and "visit ul st kv = Inr st1"
  shows "activeVCL st1 = activeVCL st"
proof (cases "is_VBE (fst kv)")
  case False
  have "visit ul (st\<lparr>activeVCL := activeVCL st\<rparr>) kv
          = map_sum id (\<lambda>s. s\<lparr>activeVCL := activeVCL st\<rparr>) (visit ul st kv)"
    using False by (rule visit_not_VBE_activeVCL)
  then have "Inr st1 = Inr (st1\<lparr>activeVCL := activeVCL st\<rparr>)"
    using assms(2) by simp
  then have "st1 = st1\<lparr>activeVCL := activeVCL st\<rparr>" by simp
  then have "activeVCL st1 = activeVCL (st1\<lparr>activeVCL := activeVCL st\<rparr>)" by simp
  then show ?thesis by simp
next
  case vbe: True
  show ?thesis
  proof (cases "revision_id (fst kv) = activeVCL st")
    case False
    then show ?thesis
      using assms vbe visit_VBE_other_revision [of "fst kv" st ul "snd kv"] by auto
  next
    case True
    then show ?thesis
      using assms vbe visit_VBE_active [of "fst kv" st ul "snd kv"]
        visit_VBE_short [of "fst kv" st ul "snd kv"]
      by (cases "4 \<le> length (segments (fst kv))") (auto simp: add_metric_def)
  qed
qed

lemma visit_outcome:
  assumes "outcome st = outcome st'"
  shows "map_sum id outcome (visit ul st kv) = map_sum id outcome (visit ul st' kv)"
proof -
  from assms have act: "activeVCL st = activeVCL st'" and ms: "metrics st = metrics st'"
    by (simp_all add: outcome_def)
  show ?thesis
  proof (cases "recognized (fst kv)")
    case False
    then show ?thesis
      using act ms visit_not_recognized [of "fst kv" ul _ "snd kv"] by (simp add: outcome_def)
  next
    case rec: True
    show ?thesis
    proof (cases "is_VBE (fst kv)")
      case False
      then show ?thesis
        using rec act ms visit_not_VBE [of "fst kv" ul _ "snd kv"]
          visit_not_VBE_short [of "fst kv" ul _ "snd kv"]
        by (cases "long_enough (fst kv)") (simp_all add: outcome_def add_metric_def)
    next
      case vbe: True
      show ?thesis
      proof (cases "activeVCL st = [] \<or> revision_id (fst kv) = activeVCL st")
        case False
        then show ?thesis
          using vbe act ms visit_VBE_other_revision [of "fst kv" _ ul "snd kv"]
          by (simp add: outcome_def)
      next
        case True
        then have True': "activeVCL st' = [] \<or> revision_id (fst kv) = activeVCL st'"
          using act by simp
        show ?thesis
          using vbe act ms
            visit_VBE_active [OF vbe True, of ul "snd kv"] visit_VBE_active [OF vbe True', of ul "snd kv"]
            visit_VBE_short [OF vbe True, of ul "snd kv"] visit_VBE_short [OF vbe True', of ul "snd kv"]
          by (cases "4 \<le> length (segments (fst kv))") (simp_all add: outcome_def add_metric_def)
      qed
    qed
  qed
qed

lemma Visit_without_other_revisions:
  assumes "outcome st = outcome st'" and "activeVCL st \<noteq> []"
  shows "map_sum id outcome (Visit (visit ul) obj st)
           = map_sum id outcome
               (Visit (visit ul) (without_other_revisions (activeVCL st) obj) st')"
  using assms
proof (induction obj arbitrary: st st')
  case Nil
  then show ?case by simp
next
  case (Cons kv obj)
  show ?case
  proof (cases "other_revision (activeVCL st) (fst kv)")
    case True
    then have vbe: "is_VBE (fst kv)" and other: "revision_id (fst kv) \<noteq> activeVCL st"
      by (simp_all add: other_revision_def)
    let ?st1 = "st\<lparr>printed := printed st @ [fst kv]\<rparr>"
    have v: "visit ul st kv = Inr ?st1"
      using visit_VBE_other_revision [OF vbe Cons.prems(2) other, of ul "snd kv"] by simp
    have "outcome ?st1 = outcome st'" using Cons.prems(1) by (simp add: outcome_def)
    moreover have "activeVCL ?st1 \<noteq> []" using Cons.prems(2) by simp
    ultimately have "map_sum id outcome (Visit (visit ul) obj ?st1)
           = map_sum id outcome
               (Visit (visit ul) (without_other_revisions (activeVCL ?st1) obj) st')"
      by (rule Cons.IH)
    then show ?thesis using True v by (simp add: id_def)
  next
    case False
    note same = visit_outcome [OF Cons.prems(1), of ul kv]
    show ?thesis
    proof (cases "visit ul st kv")
      case (Inl e)
      then have "visit ul st' kv = Inl e" using same by (cases "visit ul st' kv") simp_all
      then show ?thesis using False Inl by simp
    next
      case (Inr st1)
      then obtain st1' where st1': "visit ul st' kv = Inr st1'" and eq1: "outcome st1 = outcome st1'"
        using same by (cases "visit ul st' kv") simp_all
      have a: "activeVCL st1 = activeVCL st"
        using Cons.prems(2) Inr by (rule visit_keeps_active)
      then have "activeVCL st1 \<noteq> []" using Cons.prems(2) by simp
      with eq1 have "map_sum id outcome (Visit (visit ul) obj st1)
           = map_sum id outcome
               (Visit (visit ul) (without_other_revisions (activeVCL st1) obj) st1')"
        by (rule Cons.IH)
      then show ?thesis using False Inr st1' a by (simp add: id_def)
    qed
  qed
qed

lemma Visit_keeps_active:
  assumes "activeVCL st \<noteq> []" and "Visit (visit ul) obj st = Inr st'"
  shows "activeVCL st' = activeVCL st"
  using assms
proof (induction obj arbitrary: st)
  case Nil
  then show ?case by simp
next
  case (Cons kv obj)
  from Cons.prems(2) obtain st1 where
    st1: "visit ul st kv = Inr st1" and rest: "Visit (visit ul) obj st1 = Inr st'"
    by (auto split: sum.splits)
  have a: "activeVCL st1 = activeVCL st"
    using Cons.prems(1) st1 by (rule visit_keeps_active)
  then have "activeVCL st1 \<noteq> []" using Cons.prems(1) by simp
  from Cons.IH [OF this rest] a show ?case by simp
qed

lemma genMetrics_outcome:
  "genMetrics ul obj act =
     (case map_sum id outcome (collect ul obj act) of
        Inl e \<Rightarrow> Inl e
      | Inr res \<Rightarrow> Inr (render (snd res) (fst res)))"
  by (simp add: genMetrics_def outcome_def split: sum.splits)

lemma genMetrics_without_other_revisions:
  assumes "act \<noteq> []"
  shows "genMetrics ul obj act = genMetrics ul (without_other_revisions act obj) act"
proof -
  have "map_sum id outcome (Visit (visit ul) obj (init_state act))
           = map_sum id outcome
               (Visit (visit ul) (without_other_revisions (activeVCL (init_state act)) obj)
                  (init_state act))"
    using assms by (intro Visit_without_other_revisions) (simp_all add: init_state_def)
  then show ?thesis
    by (simp add: genMetrics_outcome collect_def init_state_def)
qed

lemma collect_without_other_revisions:
  assumes "act \<noteq> []"
  shows "map_sum id outcome (collect ul obj act)
           = map_sum id outcome (collect ul (without_other_revisions act obj) act)"
  using Visit_without_other_revisions [of "init_state act" "init_state act" ul obj] assms
  by (simp add: collect_def init_state_def)

lemma collect_keeps_active:
  assumes "act \<noteq> []" and "collect ul obj act = Inr st"
  shows "activeVCL st = act"
  using Visit_keeps_active [of "init_state act" ul obj st] assms
  by (simp add: collect_def init_state_def)

text \<open>
  Claim C2, as amended. When \<open>genMetrics\<close> is called with the empty active revision, the
  revision id of the first \<open>VBE\<close> key visited is adopted: the walk is the walk with that
  id given as the active revision. When the active revision, given or so adopted, is
  not empty, it is the active revision for the rest of the pass, and every \<open>VBE\<close> key
  whose revision id differs from it produces no Metric: without these keys the walk
  ends with the same active revision and the same Metrics (or the same panic), and
  \<open>genMetrics\<close> returns the same; the visit of such a key only prints it. In
  particular the keys \<open>VBE.a.be1.conn\<close> then \<open>VBE.b.be2.conn\<close> with the empty active
  revision give only the backend Metric of revision \<open>a\<close>, backend \<open>be1\<close>.
\<close>

theorem revision_adopted_then_filtered:
  "((\<forall>kv \<in> set pre. \<not> is_VBE (fst kv)) \<and> is_VBE k \<longrightarrow>
      collect ul (pre @ (k, v) # post) [] = collect ul (pre @ (k, v) # post) (revision_id k))
   \<and> (act \<noteq> [] \<longrightarrow>
        (\<forall>st. collect ul obj act = Inr st \<longrightarrow> activeVCL st = act)
        \<and> map_sum id outcome (collect ul obj act)
            = map_sum id outcome (collect ul (without_other_revisions act obj) act)
        \<and> genMetrics ul obj act = genMetrics ul (without_other_revisions act obj) act)
   \<and> (is_VBE k' \<and> activeVCL s \<noteq> [] \<and> revision_id k' \<noteq> activeVCL s \<longrightarrow>
        visit ul s (k', v') = Inr (s\<lparr>printed := printed s @ [k']\<rparr>))
   \<and> collect ul [(''VBE.a.be1.conn'', v1), (''VBE.b.be2.conn'', v2)] []
       = Inr \<lparr>activeVCL = ''a'',
              metrics = [\<lparr>Category = ''backend'', Name = ''conn'',
                          Labels = [(''name'', ''be1'')], Value = v1\<rparr>],
              printed = [''VBE.a.be1.conn'', ''VBE.b.be2.conn''], logged = []\<rparr>"
proof (intro conjI impI allI)
  assume "(\<forall>kv \<in> set pre. \<not> is_VBE (fst kv)) \<and> is_VBE k"
  then show "collect ul (pre @ (k, v) # post) [] = collect ul (pre @ (k, v) # post) (revision_id k)"
    using collect_adopts_first_revision by blast
next
  fix st
  assume "act \<noteq> []" and "collect ul obj act = Inr st"
  then show "activeVCL st = act" by (rule collect_keeps_active)
next
  assume "act \<noteq> []"
  then show "map_sum id outcome (collect ul obj act)
            = map_sum id outcome (collect ul (without_other_revisions act obj) act)"
    by (rule collect_without_other_revisions)
next
  assume "act \<noteq> []"
  then show "genMetrics ul obj act = genMetrics ul (without_other_revisions act obj) act"
    by (rule genMetrics_without_other_revisions)
next
  assume "is_VBE k' \<and> activeVCL s \<noteq> [] \<and> revision_id k' \<noteq> activeVCL s"
  then show "visit ul s (k', v') = Inr (s\<lparr>printed := printed s @ [k']\<rparr>)"
    using visit_VBE_other_revision by blast
next
  show "collect ul [(''VBE.a.be1.conn'', v1), (''VBE.b.be2.conn'', v2)] []
       = Inr \<lparr>activeVCL = ''a'',
              metrics = [\<lparr>Category = ''backend'', Name = ''conn'',
                          Labels = [(''name'', ''be1'')], Value = v1\<rparr>],
              printed = [''VBE.a.be1.conn'', ''VBE.b.be2.conn''], logged = []\<rparr>"
    by code_simp
qed

lemma collect_supplied_revision_example:
  "collect id [(''MAIN.uptime'', JNull), (''VBE.a.be1.conn'', JNull), (''VBE.b.be2.conn'', JNull)] ''a''
   = Inr \<lparr>activeVCL = ''a'',
          metrics = [\<lparr>Category = ''main'', Name = ''uptime'', Labels = [], Value = JNull\<rparr>,
                     \<lparr>Category = ''backend'', Name = ''conn'', Labels = [(''name'', ''be1'')],
                      Value = JNull\<rparr>],
          printed = [''VBE.a.be1.conn'', ''VBE.b.be2.conn''], logged = []\<rparr>"
  by code_simp

theorem revision_adopted_then_filtered_witness:
  "\<not> is_VBE ''MAIN.uptime'' \<and> is_VBE ''VBE.a.be1.conn''
   \<and> collect id [(''MAIN.uptime'', JNull), (''VBE.a.be1.conn'', JNull), (''VBE.b.be2.conn'', JNull)] []
     = collect id [(''MAIN.uptime'', JNull), (''VBE.a.be1.conn'', JNull), (''VBE.b.be2.conn'', JNull)]
         (revision_id ''VBE.a.be1.conn'')
   \<and> ''a'' \<noteq> []
   \<and> collect id [(''MAIN.uptime'', JNull), (''VBE.a.be1.conn'', JNull), (''VBE.b.be2.conn'', JNull)] ''a''
     = Inr \<lparr>activeVCL = ''a'',
            metrics = [\<lparr>Category = ''main'', Name = ''uptime'', Labels = [], Value = JNull\<rparr>,
                       \<lparr>Category = ''backend'', Name = ''conn'', Labels = [(''name'', ''be1'')],
                        Value = JNull\<rparr>],
            printed = [''VBE.a.be1.conn'', ''VBE.b.be2.conn''], logged = []\<rparr>
   \<and> activeVCL
        \<lparr>activeVCL = ''a'',
         metrics = [\<lparr>Category = ''main'', Name = ''uptime'', Labels = [], Value = JNull\<rparr>,
                    \<lparr>Category = ''backend'', Name = ''conn'', Labels = [(''name'', ''be1'')],
                     Value = JNull\<rparr>],
         printed = [''VBE.a.be1.conn'', ''VBE.b.be2.conn''], logged = []\<rparr>
     = ''a''
   \<and> map_sum id outcome
        (collect id [(''MAIN.uptime'', JNull), (''VBE.a.be1.conn'', JNull), (''VBE.b.be2.conn'', JNull)] ''a'')
     = map_sum id outcome
        (collect id
           (without_other_revisions ''a''
              [(''MAIN.uptime'', JNull), (''VBE.a.be1.conn'', JNull), (''VBE.b.be2.conn'', JNull)])
           ''a'')
   \<and> without_other_revisions ''a''
        [(''MAIN.uptime'', JNull), (''VBE.a.be1.conn'', JNull), (''VBE.b.be2.conn'', JNull)]
     = [(''MAIN.uptime'', JNull), (''VBE.a.be1.conn'', JNull)]
   \<and> is_VBE ''VBE.b.be2.conn''
   \<and> revision_id ''VBE.b.be2.conn'' \<noteq> ''a''
   \<and> visit id \<lparr>activeVCL = ''a'', metrics = [], printed = [], logged = []\<rparr>
        (''VBE.b.be2.conn'', JNull)
     = Inr \<lparr>activeVCL = ''a'', metrics = [], printed = [''VBE.b.be2.conn''], logged = []\<rparr>"
proof -
  let ?pre = "[(''MAIN.uptime'', JNull)]"
  let ?post = "[(''VBE.b.be2.conn'', JNull)]"
  let ?obj = "[(''MAIN.uptime'', JNull), (''VBE.a.be1.conn'', JNull), (''VBE.b.be2.conn'', JNull)]"
  let ?s = "\<lparr>activeVCL = ''a'', metrics = [], printed = [], logged = []\<rparr>"
  note t = revision_adopted_then_filtered
    [of ?pre "''VBE.a.be1.conn''" id JNull ?post "''a''" ?obj "''VBE.b.be2.conn''" ?s JNull]
  note run = collect_supplied_revision_example
  have h1: "\<not> is_VBE ''MAIN.uptime''" by code_simp
  have h2: "is_VBE ''VBE.a.be1.conn''" by code_simp
  have h3: "''a'' \<noteq> []" by simp
  have h4: "is_VBE ''VBE.b.be2.conn''" by code_simp
  have h5: "revision_id ''VBE.b.be2.conn'' \<noteq> ''a''" by code_simp
  have "(\<forall>kv \<in> set ?pre. \<not> is_VBE (fst kv)) \<and> is_VBE ''VBE.a.be1.conn''"
    using h1 h2 by simp
  with t have c1: "collect id (?pre @ (''VBE.a.be1.conn'', JNull) # ?post) []
      = collect id (?pre @ (''VBE.a.be1.conn'', JNull) # ?post) (revision_id ''VBE.a.be1.conn'')"
    by (rule mp [OF conjunct1])
  from c1 have c1': "collect id ?obj [] = collect id ?obj (revision_id ''VBE.a.be1.conn'')"
    by simp
  from t h3 run have c2: "activeVCL
        \<lparr>activeVCL = ''a'',
         metrics = [\<lparr>Category = ''main'', Name = ''uptime'', Labels = [], Value = JNull\<rparr>,
                    \<lparr>Category = ''backend'', Name = ''conn'', Labels = [(''name'', ''be1'')],
                     Value = JNull\<rparr>],
         printed = [''VBE.a.be1.conn'', ''VBE.b.be2.conn''], logged = []\<rparr>
     = ''a''"
    by blast
  from t h3 have c3: "map_sum id outcome (collect id ?obj ''a'')
      = map_sum id outcome (collect id (without_other_revisions ''a'' ?obj) ''a'')"
    by blast
  have c4: "without_other_revisions ''a'' ?obj = [(''MAIN.uptime'', JNull), (''VBE.a.be1.conn'', JNull)]"
    by code_simp
  have "is_VBE ''VBE.b.be2.conn'' \<and> activeVCL ?s \<noteq> []
          \<and> revision_id ''VBE.b.be2.conn'' \<noteq> activeVCL ?s"
    using h4 h5 by simp
  with t have "visit id ?s (''VBE.b.be2.conn'', JNull)
                 = Inr (?s\<lparr>printed := printed ?s @ [''VBE.b.be2.conn'']\<rparr>)"
    by blast
  then have c5: "visit id ?s (''VBE.b.be2.conn'', JNull)
     = Inr \<lparr>activeVCL = ''a'', metrics = [], printed = [''VBE.b.be2.conn''], logged = []\<rparr>"
    by simp
  from h1 h2 c1' h3 run c2 c3 c4 h4 h5 c5 show ?thesis by (intro conjI)
qed

text \<open>
  Claim C2 as stated fails when the first \<open>VBE\<close> key visited has an empty revision id:
  the active revision stays empty, the next \<open>VBE\<close> key sets it, and the Metrics of both
  keys are collected although their revision ids differ.
\<close>

theorem first_revision_adopted_counterexample:
  "is_VBE ''VBE..be1.conn'' \<and> revision_id ''VBE..be1.conn'' = []
   \<and> is_VBE ''VBE.b.be2.conn'' \<and> revision_id ''VBE.b.be2.conn'' = ''b''
   \<and> collect id [(''VBE..be1.conn'', JNull), (''VBE.b.be2.conn'', JNull)] []
     = Inr \<lparr>activeVCL = ''b'',
            metrics = [\<lparr>Category = ''backend'', Name = ''conn'',
                        Labels = [(''name'', ''be1'')], Value = JNull\<rparr>,
                       \<lparr>Category = ''backend'', Name = ''conn'',
                        Labels = [(''name'', ''be2'')], Value = JNull\<rparr>],
            printed = [''VBE..be1.conn'', ''VBE.b.be2.conn''], logged = []\<rparr>"
  by code_simp

text \<open>
  Claim C9, as amended. Take a counters object whose first \<open>VBE\<close> key visited has a
  revision id that is not empty, and call \<open>genMetrics\<close> with the empty active revision.
  Every text it returns ends with the \<open>varnish_active_vcl\<close> block whose version label is
  that revision id; and a text is returned whenever every recognized key has the
  segments the table reads.
\<close>

theorem adopted_revision_in_version_label:
  assumes "\<forall>kv \<in> set pre. \<not> is_VBE (fst kv)" and "is_VBE k" and "revision_id k \<noteq> []"
  shows "((\<forall>kv \<in> set (pre @ (k, v) # post). long_enough (fst kv)) \<longrightarrow>
            (\<exists>t. genMetrics ul (pre @ (k, v) # post) [] = Inr t))
         \<and> (genMetrics ul (pre @ (k, v) # post) [] = Inr text \<longrightarrow>
              (\<exists>body. text = body
                        @ ''# HELP varnish_active_vcl vcl version'' @ nl
                        @ ''# TYPE varnish_active_vcl gauge'' @ nl
                        @ ''varnish_active_vcl{version='' @ dq @ revision_id k @ dq @ ''} 1'' @ nl))"
proof (intro conjI impI)
  assume "\<forall>kv \<in> set (pre @ (k, v) # post). long_enough (fst kv)"
  then show "\<exists>t. genMetrics ul (pre @ (k, v) # post) [] = Inr t"
    by (rule one_step_total)
next
  let ?obj = "pre @ (k, v) # post"
  assume "genMetrics ul ?obj [] = Inr text"
  then have "genMetrics ul ?obj (revision_id k) = Inr text"
    using collect_adopts_first_revision [OF assms(1,2), of ul v post]
    by (simp add: genMetrics_def)
  then obtain st where st: "collect ul ?obj (revision_id k) = Inr st"
    and out: "text = render (metrics st) (activeVCL st)"
    by (auto simp: genMetrics_def split: sum.splits)
  have "activeVCL st = revision_id k"
    using assms(3) st by (rule collect_keeps_active)
  then have "text = concat (map render_metric (metrics st))
                        @ ''# HELP varnish_active_vcl vcl version'' @ nl
                        @ ''# TYPE varnish_active_vcl gauge'' @ nl
                        @ ''varnish_active_vcl{version='' @ dq @ revision_id k @ dq @ ''} 1'' @ nl"
    using out by (simp add: render_concat active_vcl_block_def)
  then show "\<exists>body. text = body
                        @ ''# HELP varnish_active_vcl vcl version'' @ nl
                        @ ''# TYPE varnish_active_vcl gauge'' @ nl
                        @ ''varnish_active_vcl{version='' @ dq @ revision_id k @ dq @ ''} 1'' @ nl"
    by blast
qed

theorem adopted_revision_in_version_label_witness:
  "\<not> is_VBE ''MAIN.uptime'' \<and> is_VBE ''VBE.boot.default.happy''
   \<and> revision_id ''VBE.boot.default.happy'' = ''boot''
   \<and> list_all long_enough
        (map fst [(''MAIN.uptime'', JNull), (''VBE.boot.default.happy'', JNull),
                  (''VBE.old.default.happy'', JNull)])
   \<and> (\<exists>t. genMetrics id
                [(''MAIN.uptime'', JNull), (''VBE.boot.default.happy'', JNull),
                 (''VBE.old.default.happy'', JNull)] [] = Inr t)
   \<and> genMetrics id
         [(''MAIN.uptime'', JNull), (''VBE.boot.default.happy'', JNull),
          (''VBE.old.default.happy'', JNull)] []
       = Inr (''# HELP varnish_main_uptime '' @ nl
              @ ''# TYPE varnish_main_uptime counter'' @ nl
              @ ''varnish_main_uptime 0'' @ nl
              @ ''# HELP varnish_backend_happy '' @ nl
              @ ''# TYPE varnish_backend_happy counter'' @ nl
              @ ''varnish_backend_happy{name='' @ dq @ ''default'' @ dq @ ''} 0'' @ nl
              @ ''# HELP varnish_active_vcl vcl version'' @ nl
              @ ''# TYPE varnish_active_vcl gauge'' @ nl
              @ ''varnish_active_vcl{version='' @ dq @ ''boot'' @ dq @ ''} 1'' @ nl)
   \<and> (\<exists>body.
          ''# HELP varnish_main_uptime '' @ nl
          @ ''# TYPE varnish_main_uptime counter'' @ nl
          @ ''varnish_main_uptime 0'' @ nl
          @ ''# HELP varnish_backend_happy '' @ nl
          @ ''# TYPE varnish_backend_happy counter'' @ nl
          @ ''varnish_backend_happy{name='' @ dq @ ''default'' @ dq @ ''} 0'' @ nl
          @ ''# HELP varnish_active_vcl vcl version'' @ nl
          @ ''# TYPE varnish_active_vcl gauge'' @ nl
          @ ''varnish_active_vcl{version='' @ dq @ ''boot'' @ dq @ ''} 1'' @ nl
          = body
            @ ''# HELP varnish_active_vcl vcl version'' @ nl
            @ ''# TYPE varnish_active_vcl gauge'' @ nl
            @ ''varnish_active_vcl{version='' @ dq @ revision_id ''VBE.boot.default.happy'' @ dq
            @ ''} 1'' @ nl)"
proof -
  let ?pre = "[(''MAIN.uptime'', JNull)]"
  let ?post = "[(''VBE.old.default.happy'', JNull)]"
  let ?obj = "[(''MAIN.uptime'', JNull), (''VBE.boot.default.happy'', JNull),
               (''VBE.old.default.happy'', JNull)]"
  let ?text = "''# HELP varnish_main_uptime '' @ nl
              @ ''# TYPE varnish_main_uptime counter'' @ nl
              @ ''varnish_main_uptime 0'' @ nl
              @ ''# HELP varnish_backend_happy '' @ nl
              @ ''# TYPE varnish_backend_happy counter'' @ nl
              @ ''varnish_backend_happy{name='' @ dq @ ''default'' @ dq @ ''} 0'' @ nl
              @ ''# HELP varnish_active_vcl vcl version'' @ nl
              @ ''# TYPE varnish_active_vcl gauge'' @ nl
              @ ''varnish_active_vcl{version='' @ dq @ ''boot'' @ dq @ ''} 1'' @ nl"
  have h1: "\<not> is_VBE ''MAIN.uptime''" by code_simp
  have h2: "is_VBE ''VBE.boot.default.happy''" by code_simp
  have h3: "revision_id ''VBE.boot.default.happy'' = ''boot''" by code_simp
  have h4: "list_all long_enough (map fst ?obj)" by code_simp
  have run: "genMetrics id ?obj [] = Inr ?text" by code_simp
  have a1: "\<forall>kv \<in> set ?pre. \<not> is_VBE (fst kv)" using h1 by simp
  have a3: "revision_id ''VBE.boot.default.happy'' \<noteq> []" using h3 by simp
  note t = adopted_revision_in_version_label [OF a1 h2 a3, of JNull ?post id ?text]
  have long: "\<forall>kv \<in> set (?pre @ (''VBE.boot.default.happy'', JNull) # ?post). long_enough (fst kv)"
    using h4 by (simp only: list_all_iff set_map append.simps) blast
  from t long have c1: "\<exists>t. genMetrics id (?pre @ (''VBE.boot.default.happy'', JNull) # ?post) [] = Inr t"
    by (rule mp [OF conjunct1])
  have run': "genMetrics id (?pre @ (''VBE.boot.default.happy'', JNull) # ?post) [] = Inr ?text"
    using run by simp
  from t run' have c2: "\<exists>body. ?text = body
            @ ''# HELP varnish_active_vcl vcl version'' @ nl
            @ ''# TYPE varnish_active_vcl gauge'' @ nl
            @ ''varnish_active_vcl{version='' @ dq @ revision_id ''VBE.boot.default.happy'' @ dq
            @ ''} 1'' @ nl"
    by (rule mp [OF conjunct2])
  from c1 have c1': "\<exists>t. genMetrics id ?obj [] = Inr t" by simp
  from h1 h2 h3 h4 c1' run c2 show ?thesis by (intro conjI)
qed

text \<open>
  Claim C9 as stated fails when the first \<open>VBE\<close> key visited has an empty revision id:
  both keys below have four segments, the revision id of the first is empty, and the
  version label of the trailing block is the revision id of the second.
\<close>

theorem adopted_revision_in_version_label_counterexample:
  "is_VBE ''VBE..default.happy'' \<and> length (segments ''VBE..default.happy'') = 4
   \<and> revision_id ''VBE..default.happy'' = []
   \<and> genMetrics id
         [(''VBE..default.happy'', JNull), (''VBE.reload.default.happy'', JNull)] []
       = Inr (''# HELP varnish_backend_happy '' @ nl
              @ ''# TYPE varnish_backend_happy counter'' @ nl
              @ ''varnish_backend_happy{name='' @ dq @ ''default'' @ dq @ ''} 0'' @ nl
              @ ''# HELP varnish_backend_happy '' @ nl
              @ ''# TYPE varnish_backend_happy counter'' @ nl
              @ ''varnish_backend_happy{name='' @ dq @ ''default'' @ dq @ ''} 0'' @ nl
              @ ''# HELP varnish_active_vcl vcl version'' @ nl
              @ ''# TYPE varnish_active_vcl gauge'' @ nl
              @ ''varnish_active_vcl{version='' @ dq @ ''reload'' @ dq @ ''} 1'' @ nl)"
  by code_simp

section \<open>Where the two functions fail, and where they do not\<close>

text \<open>
  The rendering loop cannot fail: a node without a string \<open>description\<close> is rendered
  with the empty description, and a node without an integer \<open>value\<close> with the value 0.
  The only failure of \<open>genMetrics\<close> is the index panic of the callback.
\<close>

lemma GetStringBytes_default:
  "(\<nexists>s. Get v key = Some (JString s)) \<Longrightarrow> GetStringBytes v key = []"
  by (auto simp: GetStringBytes_def split: option.splits json.splits)

lemma GetInt_default:
  "(\<nexists>i. Get v key = Some (JNumber (IntLit i))) \<Longrightarrow> GetInt v key = 0"
  by (auto simp: GetInt_def split: option.splits json.splits jnumber.splits)

lemma render_metric_defaults:
  assumes "\<nexists>s. Get (Value m) ''description'' = Some (JString s)"
    and "\<nexists>i. Get (Value m) ''value'' = Some (JNumber (IntLit i))"
  shows "render_metric m =
     (''# HELP '' @ full_name m @ '' '' @ nl)
     @ (''# TYPE '' @ full_name m @ '' '' @ (if flag_is_g (Value m) then ''gauge'' else ''counter'') @ nl)
     @ (full_name m @ formatLabel (Labels m) @ '' 0'' @ nl)"
proof -
  have "itoa 0 = ''0''" by code_simp
  then show ?thesis
    using GetStringBytes_default [OF assms(1)] GetInt_default [OF assms(2)]
    by (simp add: render_metric_lines)
qed

lemma visit_error_is_index_panic:
  assumes "visit ul st kv = Inl e"
  shows "\<exists>i. e = IndexOutOfRange i (length (segments (fst kv))) \<and> length (segments (fst kv)) \<le> i"
proof (cases "recognized (fst kv)")
  case False
  then show ?thesis
    using assms visit_not_recognized [of "fst kv" ul st "snd kv"] by simp
next
  case rec: True
  show ?thesis
  proof (cases "is_VBE (fst kv)")
    case False
    have "2 \<le> length (segments (fst kv))" using rec by (simp add: recognized_def)
    moreover have "\<not> long_enough (fst kv) \<Longrightarrow> length (segments (fst kv)) < 3"
      using rec False
      by (auto simp: long_enough_def segments_read_def is_VBE_def recognized_def split: if_splits)
    ultimately show ?thesis
      using assms rec False visit_not_VBE [of "fst kv" ul st "snd kv"]
        visit_not_VBE_short [of "fst kv" ul st "snd kv"]
      by (cases "long_enough (fst kv)") auto
  next
    case vbe: True
    have two: "2 \<le> length (segments (fst kv))" using rec by (simp add: recognized_def)
    show ?thesis
    proof (cases "activeVCL st = [] \<or> revision_id (fst kv) = activeVCL st")
      case False
      then show ?thesis
        using assms vbe visit_VBE_other_revision [of "fst kv" st ul "snd kv"] by auto
    next
      case True
      then show ?thesis
        using assms vbe two visit_VBE_active [of "fst kv" st ul "snd kv"]
          visit_VBE_short [of "fst kv" st ul "snd kv"]
        by (cases "4 \<le> length (segments (fst kv))") auto
    qed
  qed
qed

lemma Visit_error_is_index_panic:
  assumes "Visit (visit ul) obj st = Inl e"
  shows "\<exists>i n. e = IndexOutOfRange i n \<and> n \<le> i"
  using assms
proof (induction obj arbitrary: st)
  case Nil
  then show ?case by simp
next
  case (Cons kv obj)
  show ?case
  proof (cases "visit ul st kv")
    case (Inl e')
    then have "e' = e" using Cons.prems by simp
    then show ?thesis using visit_error_is_index_panic [OF Inl] by blast
  next
    case (Inr st1)
    then have "Visit (visit ul) obj st1 = Inl e" using Cons.prems by simp
    then show ?thesis by (rule Cons.IH)
  qed
qed

lemma genMetrics_error_is_index_panic:
  assumes "genMetrics ul obj act = Inl e"
  shows "\<exists>i n. e = IndexOutOfRange i n \<and> n \<le> i"
proof -
  from assms have "Visit (visit ul) obj (init_state act) = Inl e"
    by (simp add: genMetrics_def collect_def split: sum.splits)
  then show ?thesis by (rule Visit_error_is_index_panic)
qed

text \<open>
  \<open>parseVCLList\<close> returns an error when the text cannot be decoded, when it does not
  decode to an array, and when an array of at least three entries has no active entry
  after the third; it returns the name of the active entry at index 3; it panics on an
  array of fewer than three entries.
\<close>

lemma parseVCLList_undecodable:
  "parse input = Inl msg \<Longrightarrow> parseVCLList parse input = Inl (DecodeError msg)"
  by (simp add: parseVCLList_def)

lemma parseVCLList_not_array:
  "parse input = Inr v \<Longrightarrow> (\<nexists>a. v = JArray a) \<Longrightarrow>
   \<exists>msg. parseVCLList parse input = Inl (DecodeError msg)"
  by (cases v) (simp_all add: parseVCLList_def Array_def)

lemma parseVCLList_short:
  "parse input = Inr (JArray arr) \<Longrightarrow> length arr < 3 \<Longrightarrow>
   parseVCLList parse input = Inl (SliceBoundsOutOfRange 3 (length arr))"
  by (simp add: parseVCLList_def Array_def)

lemma first_active_none:
  "\<forall>e \<in> set vs. GetStringBytes e ''status'' \<noteq> ''active'' \<Longrightarrow> first_active vs = Inl NoActiveACL"
  by (induction vs) simp_all

lemma parseVCLList_no_active:
  "parse input = Inr (JArray arr) \<Longrightarrow> 3 \<le> length arr \<Longrightarrow>
   \<forall>e \<in> set (drop 3 arr). GetStringBytes e ''status'' \<noteq> ''active'' \<Longrightarrow>
   parseVCLList parse input = Inl NoActiveACL"
  by (simp add: parseVCLList_def Array_def first_active_none)

lemma parseVCLList_active_at_3:
  "parse input = Inr (JArray (m0 # m1 # m2 # e # rest)) \<Longrightarrow>
   GetStringBytes e ''status'' = ''active'' \<Longrightarrow> GetStringBytes e ''name'' = ''boot'' \<Longrightarrow>
   parseVCLList parse input = Inr ''boot''"
  by (simp add: parseVCLList_def Array_def)

end
